theory Spec2Isabelle
  imports Complex_Main "HOL-Library.Sublist"
begin

section \<open>Failures\<close>

text \<open>
  The exceptions the module can meet.  Python splits them in two: the subclasses of
  \<^verbatim>\<open>Exception\<close>, which \<^verbatim>\<open>except Exception\<close> catches, and the classes that derive from
  \<^verbatim>\<open>BaseException\<close> only (\<^verbatim>\<open>asyncio.CancelledError\<close> since Python 3.8,
  \<^verbatim>\<open>KeyboardInterrupt\<close>, \<^verbatim>\<open>SystemExit\<close>), which it lets through.
\<close>

datatype failure =
    ValueError
  | TypeError
  | AttributeError
  | InvalidStateError
  | ClientError
  | JSONDecodeError
  | CancelledError
  | KeyboardInterrupt
  | SystemExit

fun isinstance_Exception :: "failure \<Rightarrow> bool" where
  "isinstance_Exception CancelledError = False"
| "isinstance_Exception KeyboardInterrupt = False"
| "isinstance_Exception SystemExit = False"
| "isinstance_Exception _ = True"

section \<open>The rate-limited queue: \<^verbatim>\<open>WovAPICaller\<close>\<close>

subsection \<open>\<^verbatim>\<open>asyncio.Future\<close>\<close>

text \<open>
  A future is pending, or finished with a result or with an exception.  Both setters raise
  \<^verbatim>\<open>InvalidStateError\<close> on a future that is no longer pending.  Nothing in the module
  cancels a future, so the cancelled state is not part of the model.
\<close>

datatype 'v Future = PENDING | RESULT 'v | EXCEPTION failure

definition set_result :: "'v \<Rightarrow> 'v Future \<Rightarrow> failure + 'v Future" where
  "set_result result fut = (case fut of PENDING \<Rightarrow> Inr (RESULT result) | _ \<Rightarrow> Inl InvalidStateError)"

definition set_exception :: "failure \<Rightarrow> 'v Future \<Rightarrow> failure + 'v Future" where
  "set_exception e fut = (case fut of PENDING \<Rightarrow> Inr (EXCEPTION e) | _ \<Rightarrow> Inl InvalidStateError)"

subsection \<open>\<^verbatim>\<open>asyncio.Queue\<close>\<close>

text \<open>
  The queue object: its capacity, its items (head first) and its count of unfinished
  tasks.  \<^verbatim>\<open>put\<close> suspends the caller while the queue is full (\<open>None\<close>), and a queue
  whose \<^verbatim>\<open>maxsize\<close> is not positive is never full; \<^verbatim>\<open>get\<close> suspends the caller while
  the queue is empty (\<open>None\<close>); \<^verbatim>\<open>task_done\<close> raises \<^verbatim>\<open>ValueError\<close> when it is called
  more often than items were put.
\<close>

record 'i Queue =
  maxsize :: int
  items :: "'i list"
  unfinished_tasks :: int

definition Queue_init :: "'i Queue" where
  "Queue_init = \<lparr>maxsize = 0, items = [], unfinished_tasks = 0\<rparr>"

definition queue_full :: "'i Queue \<Rightarrow> bool" where
  "queue_full q = (if maxsize q \<le> 0 then False else maxsize q \<le> int (length (items q)))"

definition queue_put :: "'i Queue \<Rightarrow> 'i \<Rightarrow> 'i Queue option" where
  "queue_put q item =
     (if queue_full q then None
      else Some (q\<lparr>items := items q @ [item], unfinished_tasks := unfinished_tasks q + 1\<rparr>))"

definition queue_get :: "'i Queue \<Rightarrow> ('i \<times> 'i Queue) option" where
  "queue_get q = (case items q of [] \<Rightarrow> None | item # rest \<Rightarrow> Some (item, q\<lparr>items := rest\<rparr>))"

definition queue_task_done :: "'i Queue \<Rightarrow> failure + 'i Queue" where
  "queue_task_done q =
     (if unfinished_tasks q \<le> 0 then Inl ValueError
      else Inr (q\<lparr>unfinished_tasks := unfinished_tasks q - 1\<rparr>))"

subsection \<open>Tasks, the worker and the state of a \<^verbatim>\<open>WovAPICaller\<close>\<close>

text \<open>
  A submitted operation is an arbitrary coroutine function: applied to its arguments it
  either completes, by returning a value or by raising a failure, or never completes
  (\<open>None\<close>).  A task is the tuple \<^verbatim>\<open>(func, args, future)\<close> of the source; the future is
  named by its identity, a key of the store \<open>futures\<close>.
\<close>

datatype 'v completion = Returns 'v | Raises failure

type_synonym ('a, 'v) func = "'a \<Rightarrow> 'v completion option"

type_synonym ('a, 'v) task = "('a, 'v) func \<times> 'a \<times> nat"

text \<open>
  The worker coroutine \<^verbatim>\<open>process_queue\<close> is at one of its three suspension points
  (\<^verbatim>\<open>await self.queue.get()\<close>, \<^verbatim>\<open>await func(*args)\<close>, \<^verbatim>\<open>await asyncio.sleep(1)\<close> with
  the time it is due), or it has ended with a failure that left the loop.
\<close>

datatype ('a, 'v) coroutine =
    AtGet
  | AtAwait "('a, 'v) task"
  | AtSleep real
  | Ended failure

text \<open>
  What an observer with a clock sees (the newest observation first): a submission, the
  worker starting an operation, a future being resolved, a failure leaving the loop.
\<close>

datatype ('a, 'v) obs =
    Submitted nat "('a, 'v) func" 'a real
  | Started nat real
  | Resolved nat real
  | Escaped nat real

record ('a, 'v) WovAPICaller =
  queue :: "('a, 'v) task Queue"
  worker :: "('a, 'v) coroutine"
  futures :: "nat \<Rightarrow> 'v Future"
  n_futures :: nat
  clock :: real
  trace :: "('a, 'v) obs list"

definition WovAPICaller_init :: "('a, 'v) WovAPICaller" where
  "WovAPICaller_init =
     \<lparr>queue = Queue_init, worker = AtGet, futures = (\<lambda>_. PENDING), n_futures = 0,
      clock = 0, trace = []\<rparr>"

text \<open>
  \<^verbatim>\<open>add_to_queue\<close>: a new future, the tuple put on the queue, the future returned.  The
  result is \<open>None\<close> when the caller is suspended in \<^verbatim>\<open>put\<close>.
\<close>

definition add_to_queue ::
  "('a, 'v) func \<Rightarrow> 'a \<Rightarrow> ('a, 'v) WovAPICaller \<Rightarrow> nat option \<times> ('a, 'v) WovAPICaller" where
  "add_to_queue func args s =
     (let future = n_futures s;
          s1 = s\<lparr>futures := (futures s)(future := PENDING), n_futures := Suc future\<rparr>
      in case queue_put (queue s1) (func, args, future) of
           None \<Rightarrow> (None, s1)
         | Some q \<Rightarrow>
             (Some future,
              s1\<lparr>queue := q, trace := Submitted future func args (clock s) # trace s\<rparr>))"

text \<open>
  The \<^verbatim>\<open>try\<close> statement of \<^verbatim>\<open>process_queue\<close>, once the awaited operation has completed:
  the body sets the result, the handler catches what is an \<^verbatim>\<open>Exception\<close> (a failure of
  the operation or of \<^verbatim>\<open>set_result\<close>) and sets it as the future's exception; a failure of
  the handler itself, or one it does not catch, leaves the statement.
\<close>

definition try_except :: "'v completion \<Rightarrow> 'v Future \<Rightarrow> failure + 'v Future" where
  "try_except c fut =
     (case (case c of Returns result \<Rightarrow> set_result result fut | Raises e \<Rightarrow> Inl e) of
        Inr fut' \<Rightarrow> Inr fut'
      | Inl e \<Rightarrow> if isinstance_Exception e then set_exception e fut else Inl e)"

text \<open>
  One resumption of the worker, run to its next suspension point.  At \<^verbatim>\<open>get\<close> with an
  empty queue, and at an operation that never completes, it stays suspended.  Waking from
  \<^verbatim>\<open>asyncio.sleep(1)\<close> happens no earlier than the time it is due.
\<close>

definition process_queue :: "('a, 'v) WovAPICaller \<Rightarrow> ('a, 'v) WovAPICaller" where
  "process_queue s =
     (case worker s of
        AtGet \<Rightarrow>
          (case queue_get (queue s) of
             None \<Rightarrow> s
           | Some ((func, args, future), q) \<Rightarrow>
               s\<lparr>queue := q, worker := AtAwait (func, args, future),
                 trace := Started future (clock s) # trace s\<rparr>)
      | AtAwait (func, args, future) \<Rightarrow>
          (case func args of
             None \<Rightarrow> s
           | Some c \<Rightarrow>
               (case try_except c (futures s future) of
                  Inl e \<Rightarrow> s\<lparr>worker := Ended e, trace := Escaped future (clock s) # trace s\<rparr>
                | Inr fut \<Rightarrow>
                    (case queue_task_done (queue s) of
                       Inl e \<Rightarrow>
                         s\<lparr>worker := Ended e, futures := (futures s)(future := fut),
                           trace := Resolved future (clock s) # trace s\<rparr>
                     | Inr q \<Rightarrow>
                         s\<lparr>queue := q, worker := AtSleep (clock s + 1),
                           futures := (futures s)(future := fut),
                           trace := Resolved future (clock s) # trace s\<rparr>)))
      | AtSleep due \<Rightarrow> s\<lparr>worker := AtGet, clock := max (clock s) due\<rparr>
      | Ended e \<Rightarrow> s)"

subsection \<open>Schedules\<close>

text \<open>
  The event loop interleaves the submitters and the worker: a schedule is any list of
  submissions, resumptions of the worker, and lapses of time.  \<open>run\<close> plays a
  schedule from a state.
\<close>

datatype ('a, 'v) action = Submit "('a, 'v) func" 'a | Worker | Tick real

fun step :: "('a, 'v) action \<Rightarrow> ('a, 'v) WovAPICaller \<Rightarrow> ('a, 'v) WovAPICaller" where
  "step (Submit func args) s = snd (add_to_queue func args s)"
| "step Worker s = process_queue s"
| "step (Tick d) s = s\<lparr>clock := clock s + max 0 d\<rparr>"

definition run :: "('a, 'v) action list \<Rightarrow> ('a, 'v) WovAPICaller \<Rightarrow> ('a, 'v) WovAPICaller" where
  "run acts s = fold step acts s"

subsection \<open>Observations and invariants of the queue\<close>

text \<open>
  The tasks the worker still owes a resolution: the one it is awaiting, then the queued
  ones, head first.
\<close>

fun task_future :: "('a, 'v) task \<Rightarrow> nat" where
  "task_future (func, args, future) = future"

definition inflight :: "('a, 'v) WovAPICaller \<Rightarrow> ('a, 'v) task list" where
  "inflight s = (case worker s of AtAwait t \<Rightarrow> [t] | _ \<Rightarrow> [])"

definition pending_tasks :: "('a, 'v) WovAPICaller \<Rightarrow> ('a, 'v) task list" where
  "pending_tasks s = inflight s @ items (queue s)"

definition pending_ids :: "('a, 'v) WovAPICaller \<Rightarrow> nat list" where
  "pending_ids s = map task_future (pending_tasks s)"

text \<open>
  The queue is unbounded, and its count of unfinished tasks covers the tasks still owed.
\<close>

definition inv_queue :: "('a, 'v) WovAPICaller \<Rightarrow> bool" where
  "inv_queue s \<longleftrightarrow>
     maxsize (queue s) = 0 \<and> int (length (pending_tasks s)) \<le> unfinished_tasks (queue s)"

text \<open>
  The futures of the tasks still owed are pending, were created in the order of the queue,
  and no future that has not been created yet is resolved.
\<close>

definition inv_futures :: "('a, 'v) WovAPICaller \<Rightarrow> bool" where
  "inv_futures s \<longleftrightarrow>
     sorted_wrt (<) (pending_ids s) \<and>
     (\<forall>i \<in> set (pending_ids s). i < n_futures s \<and> futures s i = PENDING) \<and>
     (\<forall>i. n_futures s \<le> i \<longrightarrow> futures s i = PENDING)"

text \<open>
  Read off the observations, oldest first: the futures in the order \<^verbatim>\<open>add_to_queue\<close>
  returned them, and the completions (a future and the time it was resolved).
\<close>

fun submitted_ids :: "('a, 'v) obs list \<Rightarrow> nat list" where
  "submitted_ids [] = []"
| "submitted_ids (Submitted i func args t # tr) = submitted_ids tr @ [i]"
| "submitted_ids (_ # tr) = submitted_ids tr"

fun completions :: "('a, 'v) obs list \<Rightarrow> (nat \<times> real) list" where
  "completions [] = []"
| "completions (Resolved i t # tr) = completions tr @ [(i, t)]"
| "completions (_ # tr) = completions tr"

text \<open>
  The rate limit on the observations: every completion comes at least one time unit after
  the completion before it, and every start of an operation comes at least one time unit
  after the end of the operation before it, however that one ended.
\<close>

fun last_resolved :: "('a, 'v) obs list \<Rightarrow> real option" where
  "last_resolved [] = None"
| "last_resolved (Resolved i t # tr) = Some t"
| "last_resolved (_ # tr) = last_resolved tr"

fun last_ended :: "('a, 'v) obs list \<Rightarrow> real option" where
  "last_ended [] = None"
| "last_ended (Resolved i t # tr) = Some t"
| "last_ended (Escaped i t # tr) = Some t"
| "last_ended (_ # tr) = last_ended tr"

definition cooled :: "('a, 'v) obs list \<Rightarrow> real \<Rightarrow> bool" where
  "cooled tr t = (case last_resolved tr of None \<Rightarrow> True | Some t' \<Rightarrow> t' + 1 \<le> t)"

definition rested :: "('a, 'v) obs list \<Rightarrow> real \<Rightarrow> bool" where
  "rested tr t = (case last_ended tr of None \<Rightarrow> True | Some t' \<Rightarrow> t' + 1 \<le> t)"

fun rate_limited :: "('a, 'v) obs list \<Rightarrow> bool" where
  "rate_limited [] = True"
| "rate_limited (Started i t # tr) = (rested tr t \<and> rate_limited tr)"
| "rate_limited (Resolved i t # tr) = (cooled tr t \<and> rate_limited tr)"
| "rate_limited (_ # tr) = rate_limited tr"

text \<open>The operations that have been started and have not ended yet.\<close>

fun executing :: "('a, 'v) obs list \<Rightarrow> nat list" where
  "executing [] = []"
| "executing (Started i t # tr) = i # executing tr"
| "executing (Resolved i t # tr) = remove1 i (executing tr)"
| "executing (Escaped i t # tr) = remove1 i (executing tr)"
| "executing (_ # tr) = executing tr"

definition inv_order :: "('a, 'v) WovAPICaller \<Rightarrow> bool" where
  "inv_order s \<longleftrightarrow>
     sorted_wrt (<) (submitted_ids (trace s)) \<and>
     (\<forall>i \<in> set (submitted_ids (trace s)). i < n_futures s) \<and>
     (case worker s of
        Ended e \<Rightarrow> prefix (map fst (completions (trace s))) (submitted_ids (trace s))
      | _ \<Rightarrow> submitted_ids (trace s) = map fst (completions (trace s)) @ pending_ids s)"

definition inv_time :: "('a, 'v) WovAPICaller \<Rightarrow> bool" where
  "inv_time s \<longleftrightarrow>
     rate_limited (trace s) \<and>
     (case worker s of
        AtSleep due \<Rightarrow> cooled (trace s) due \<and> last_ended (trace s) = last_resolved (trace s)
      | Ended e \<Rightarrow> True
      | _ \<Rightarrow> cooled (trace s) (clock s) \<and> last_ended (trace s) = last_resolved (trace s))"

definition inv_exec :: "('a, 'v) WovAPICaller \<Rightarrow> bool" where
  "inv_exec s \<longleftrightarrow> executing (trace s) = map task_future (inflight s)"

text \<open>No operation is started while another one is executing.\<close>

fun serial :: "('a, 'v) obs list \<Rightarrow> bool" where
  "serial [] = True"
| "serial (Started i t # tr) = (executing tr = [] \<and> serial tr)"
| "serial (_ # tr) = serial tr"

fun started_ids :: "('a, 'v) obs list \<Rightarrow> nat list" where
  "started_ids [] = []"
| "started_ids (Started i t # tr) = started_ids tr @ [i]"
| "started_ids (_ # tr) = started_ids tr"

fun is_Submit :: "('a, 'v) action \<Rightarrow> bool" where
  "is_Submit (Submit func args) = True"
| "is_Submit _ = False"

definition inv_serial :: "('a, 'v) WovAPICaller \<Rightarrow> bool" where
  "inv_serial s \<longleftrightarrow> serial (trace s)"

text \<open>
  The operation a future was submitted with, and what it means for a future to hold the
  outcome of its own operation.
\<close>

fun submission :: "('a, 'v) obs list \<Rightarrow> nat \<Rightarrow> (('a, 'v) func \<times> 'a) option" where
  "submission [] i = None"
| "submission (Submitted j func args t # tr) i =
     (if i = j then Some (func, args) else submission tr i)"
| "submission (_ # tr) i = submission tr i"

definition own_outcome :: "('a, 'v) obs list \<Rightarrow> nat \<Rightarrow> 'v Future \<Rightarrow> bool" where
  "own_outcome tr i fut =
     (case fut of
        PENDING \<Rightarrow> True
      | RESULT result \<Rightarrow>
          (case submission tr i of
             None \<Rightarrow> False
           | Some (func, args) \<Rightarrow> func args = Some (Returns result))
      | EXCEPTION e \<Rightarrow>
          (case submission tr i of
             None \<Rightarrow> False
           | Some (func, args) \<Rightarrow> func args = Some (Raises e)))"

definition inv_own :: "('a, 'v) WovAPICaller \<Rightarrow> bool" where
  "inv_own s \<longleftrightarrow>
     (\<forall>t \<in> set (pending_tasks s). submission (trace s) (task_future t) = Some (fst t, fst (snd t))) \<and>
     (\<forall>i. own_outcome (trace s) i (futures s i)) \<and>
     (\<forall>i. futures s i \<noteq> PENDING \<longleftrightarrow> i \<in> set (map fst (completions (trace s))))"

definition invariant :: "('a, 'v) WovAPICaller \<Rightarrow> bool" where
  "invariant s \<longleftrightarrow>
     inv_queue s \<and> inv_futures s \<and> inv_order s \<and> inv_time s \<and> inv_exec s \<and> inv_serial s \<and>
     inv_own s"

text \<open>
  A completion the \<^verbatim>\<open>try\<close> statement turns into a resolution of the future: a
  returned value, or a raised failure that is an \<^verbatim>\<open>Exception\<close>.
\<close>

fun catchable :: "'v completion \<Rightarrow> bool" where
  "catchable (Returns result) = True"
| "catchable (Raises e) = isinstance_Exception e"

text \<open>
  The scenario of the specification: A returns 1, B raises \<^verbatim>\<open>ValueError\<close>, C returns 3,
  submitted in that order; then the worker runs.
\<close>

definition scenario :: "(unit, int) action list" where
  "scenario =
     [Submit (\<lambda>_. Some (Returns 1)) (), Submit (\<lambda>_. Some (Raises ValueError)) (),
      Submit (\<lambda>_. Some (Returns 3)) (),
      Worker, Worker, Worker, Worker, Worker, Worker, Worker, Worker]"

text \<open>
  A worker that makes no further step: it has ended, or it awaits an operation that never
  completes.
\<close>

fun stuck :: "('a, 'v) coroutine \<Rightarrow> bool" where
  "stuck (Ended e) = True"
| "stuck (AtAwait (func, args, future)) = (func args = None)"
| "stuck _ = False"

text \<open>
  Three schedules with a second task that would return 3: the first operation raises
  \<^verbatim>\<open>asyncio.CancelledError\<close>; the first operation never completes; the first
  operation raises \<^verbatim>\<open>SystemExit\<close>.
\<close>

definition poisoned :: "(unit, int) action list" where
  "poisoned =
     [Submit (\<lambda>_. Some (Raises CancelledError)) (), Submit (\<lambda>_. Some (Returns 3)) (), Worker]"

definition stalled :: "(unit, int) action list" where
  "stalled =
     [Submit (\<lambda>_. None) (), Submit (\<lambda>_. Some (Returns 3)) (),
      Worker, Worker, Tick 10, Worker, Worker, Worker]"

definition aborted :: "(unit, int) action list" where
  "aborted =
     [Submit (\<lambda>_. Some (Raises SystemExit)) (), Submit (\<lambda>_. Some (Returns 3)) (),
      Worker, Worker, Tick 10, Worker, Worker, Worker]"

text \<open>A schedule without submissions.\<close>

definition idling :: "(unit, int) action list" where
  "idling = [Worker, Tick 5, Worker, Worker, Tick (1/2), Worker]"

text \<open>
  Progress towards the resolution of a future that is still owed: the tasks up to and
  including its own, whether each of them completes with a value or a captured failure,
  and the number of worker resumptions that resolve it.
\<close>

fun upto_future :: "nat \<Rightarrow> ('a, 'v) task list \<Rightarrow> ('a, 'v) task list" where
  "upto_future i [] = []"
| "upto_future i (t # ts) = (if task_future t = i then [t] else t # upto_future i ts)"

fun completes :: "('a, 'v) task \<Rightarrow> bool" where
  "completes (func, args, future) = (case func args of None \<Rightarrow> False | Some c \<Rightarrow> catchable c)"

fun alive :: "('a, 'v) coroutine \<Rightarrow> bool" where
  "alive (Ended e) = False"
| "alive _ = True"

definition clear :: "('a, 'v) WovAPICaller \<Rightarrow> nat \<Rightarrow> bool" where
  "clear s i \<longleftrightarrow> alive (worker s) \<and> list_all completes (upto_future i (pending_tasks s))"

definition work :: "('a, 'v) WovAPICaller \<Rightarrow> nat \<Rightarrow> nat" where
  "work s i =
     3 * length (upto_future i (pending_tasks s))
       - (case worker s of AtAwait t \<Rightarrow> 2 | AtGet \<Rightarrow> 1 | _ \<Rightarrow> 0)"

fun resolution :: "'v completion \<Rightarrow> 'v Future" where
  "resolution (Returns result) = RESULT result"
| "resolution (Raises e) = EXCEPTION e"

text \<open>
  A schedule whose second operation raises \<^verbatim>\<open>asyncio.CancelledError\<close>, between a first
  that returns 1 and a third that would return 3; the worker is resumed until the second
  operation has ended.
\<close>

definition cut_short :: "(unit, int) action list" where
  "cut_short =
     [Submit (\<lambda>_. Some (Returns 1)) (), Submit (\<lambda>_. Some (Raises CancelledError)) (),
      Submit (\<lambda>_. Some (Returns 3)) (),
      Worker, Worker, Worker, Worker, Worker]"

section \<open>The API wrappers: \<^verbatim>\<open>WovApiCall\<close> and \<^verbatim>\<open>LichessApiCall\<close>\<close>

subsection \<open>Strings, dictionaries and the log\<close>

text \<open>
  URLs, header fields and log messages are strings.  The text of a response is a Python
  \<^verbatim>\<open>str\<close>, a sequence of Unicode code points, since \<^verbatim>\<open>splitlines\<close> and \<^verbatim>\<open>strip\<close>
  go by code points.  A dictionary of headers is a map.
\<close>

type_synonym unicode = "nat list"

type_synonym dict = "string \<rightharpoonup> string"

text \<open>\<^verbatim>\<open>str(n)\<close> for an integer, as the f-strings of the module format it.\<close>

fun str_nat :: "nat \<Rightarrow> string" where
  "str_nat n = (if n < 10 then [''0123456789'' ! n] else str_nat (n div 10) @ [''0123456789'' ! (n mod 10)])"

definition str_int :: "int \<Rightarrow> string" where
  "str_int i = (if i < 0 then CHR ''-'' # str_nat (nat (- i)) else str_nat (nat i))"

text \<open>\<^verbatim>\<open>os.getenv\<close> gives \<^verbatim>\<open>None\<close> for a variable that is not set, which an f-string formats as \<^verbatim>\<open>None\<close>.\<close>

definition str_getenv :: "string option \<Rightarrow> string" where
  "str_getenv v = (case v of None \<Rightarrow> ''None'' | Some s \<Rightarrow> s)"

text \<open>
  Modelled from the spec: the class \<^verbatim>\<open>Logger\<close> of \<^verbatim>\<open>bot_util.misc\<close> is not part of the
  source at hand; the specification has a logging collaborator that receives human-readable
  error messages.  A record of the log is the message passed to \<^verbatim>\<open>logger.error\<close> with its
  arguments, and its text replaces each \<^verbatim>\<open>%s\<close> by the next argument when there are
  arguments, as the standard \<^verbatim>\<open>logging\<close> module does.
\<close>

type_synonym log_record = "string \<times> string list"

definition logger_error :: "string \<Rightarrow> string list \<Rightarrow> log_record list \<Rightarrow> log_record list" where
  "logger_error msg args records = records @ [(msg, args)]"

fun percent_format :: "string \<Rightarrow> string list \<Rightarrow> string" where
  "percent_format [] args = []"
| "percent_format (c # cs) [] = c # cs"
| "percent_format [c] (a # args) = [c]"
| "percent_format (c # d # cs) (a # args) =
     (if c = CHR ''%'' \<and> d = CHR ''s'' then a @ percent_format cs args
      else c # percent_format (d # cs) (a # args))"

fun getMessage :: "log_record \<Rightarrow> string" where
  "getMessage (msg, args) = percent_format msg args"

subsection \<open>The HTTP collaborators\<close>

text \<open>
  A response has a status code, the outcome of decoding its body as JSON
  (\<^verbatim>\<open>response.json()\<close> returns the payload or raises), and the text of its body.
\<close>

record 'j response =
  status :: int
  json :: "failure + 'j"
  body :: unicode

text \<open>The values of the query parameters of the export.\<close>

datatype pyval =
    PyNone
  | PyBool bool
  | PyInt int
  | PyStr string
  | PyList "string list"

text \<open>
  What the module calls and does not define: \<^verbatim>\<open>session.get\<close> of \<^verbatim>\<open>aiohttp\<close> and
  \<^verbatim>\<open>requests.get\<close> (a response, or a failure such as a connection error),
  \<^verbatim>\<open>regulated_request\<close> of \<^verbatim>\<open>bot_util.functions.universal\<close> (a response object, \<^verbatim>\<open>None\<close>,
  or a failure), \<^verbatim>\<open>json.loads\<close>, and \<^verbatim>\<open>str\<close> of a failure.
\<close>

record 'j collaborators =
  session_get :: "string \<Rightarrow> dict \<Rightarrow> failure + 'j response"
  requests_get :: "string \<Rightarrow> dict \<Rightarrow> failure + 'j response"
  regulated_request :: "string \<Rightarrow> dict \<Rightarrow> (string \<times> pyval) list \<Rightarrow> failure + 'j response option"
  json_loads :: "unicode \<Rightarrow> failure + 'j"
  str_failure :: "failure \<Rightarrow> string"

subsection \<open>The state the wrappers share\<close>

text \<open>
  The class attributes of \<^verbatim>\<open>LichessApiCall\<close> (\<^verbatim>\<open>headers\<close> is a reference to a dictionary
  object), the store of dictionary objects, the log, and the requests made so far (the
  URL and the headers each carried).
\<close>

record LichessApiCall =
  lichess_url :: string
  headers :: nat

record world =
  cls :: LichessApiCall
  heap :: "nat \<Rightarrow> dict"
  logged :: "log_record list"
  sent :: "(string \<times> dict) list"

definition world_init :: "string option \<Rightarrow> world" where
  "world_init li_api_token =
     \<lparr>cls = \<lparr>lichess_url = ''https://lichess.org/api/'', headers = 0\<rparr>,
      heap = (\<lambda>_. Map.empty)(0 := [''Authorization'' \<mapsto> ''Bearer '' @ str_getenv li_api_token]),
      logged = [], sent = []\<rparr>"

text \<open>The class attributes of \<^verbatim>\<open>WovApiCall\<close>; no method rebinds or mutates them.\<close>

record WovApiCall =
  wov_headers :: dict
  api_url :: string

definition WovApiCall_init :: "string option \<Rightarrow> WovApiCall" where
  "WovApiCall_init wov_api_token =
     \<lparr>wov_headers = [''Authorization'' \<mapsto> ''Bot '' @ str_getenv wov_api_token],
      api_url = ''https://api.wolvesville.com/''\<rparr>"

subsection \<open>The wrappers that check the status\<close>

text \<open>
  The result of a wrapper: it raises (\<open>Inl\<close>), returns \<^verbatim>\<open>None\<close> (\<open>Inr None\<close>) or returns
  a payload.  All seven wrappers end the same way: on status 200 the decoded payload, or
  the failure of decoding it; on any other status the error logged and \<^verbatim>\<open>None\<close>; a
  failure of the request itself is not handled.
\<close>

definition respond ::
  "(failure + 'j response) \<Rightarrow> (int \<Rightarrow> string \<times> string list) \<Rightarrow> world \<Rightarrow> (failure + 'j option) \<times> world" where
  "respond r message w =
     (case r of
        Inl e \<Rightarrow> (Inl e, w)
      | Inr response \<Rightarrow>
          if status response = 200 then
            (case json response of Inl e \<Rightarrow> (Inl e, w) | Inr payload \<Rightarrow> (Inr (Some payload), w))
          else
            (Inr None,
             w\<lparr>logged := logger_error (fst (message (status response)))
                            (snd (message (status response))) (logged w)\<rparr>))"

definition request ::
  "(string \<Rightarrow> dict \<Rightarrow> failure + 'j response) \<Rightarrow> string \<Rightarrow> dict \<Rightarrow> world \<Rightarrow> (failure + 'j response) \<times> world" where
  "request get url hdrs w = (get url hdrs, w\<lparr>sent := sent w @ [(url, hdrs)]\<rparr>)"

definition get_user_by_id ::
  "'j collaborators \<Rightarrow> WovApiCall \<Rightarrow> int \<Rightarrow> world \<Rightarrow> (failure + 'j option) \<times> world" where
  "get_user_by_id env c user_id w =
     (let (r, w') = request (session_get env) (api_url c @ ''players/'' @ str_int user_id) (wov_headers c) w
      in respond r
           (\<lambda>st. (''Wov User API call failed with status code '' @ str_int st @ ''. User ID: ''
                     @ str_int user_id, [])) w')"

definition get_user_by_name ::
  "'j collaborators \<Rightarrow> WovApiCall \<Rightarrow> string \<Rightarrow> world \<Rightarrow> (failure + 'j option) \<times> world" where
  "get_user_by_name env c username w =
     (let (r, w') = request (session_get env) (api_url c @ ''players/search?username='' @ username)
                      (wov_headers c) w
      in respond r
           (\<lambda>st. (''Wov User API call failed with status code '' @ str_int st @ ''. Username: ''
                     @ username, [])) w')"

definition get_clan_by_id ::
  "'j collaborators \<Rightarrow> WovApiCall \<Rightarrow> int \<Rightarrow> world \<Rightarrow> (failure + 'j option) \<times> world" where
  "get_clan_by_id env c clan_id w =
     (let (r, w') = request (session_get env) (api_url c @ ''clans/'' @ str_int clan_id @ ''/info'')
                      (wov_headers c) w
      in respond r
           (\<lambda>st. (''Wov Clan API call failed with status code '' @ str_int st @ ''. Clan ID: ''
                     @ str_int clan_id, [])) w')"

definition get_clan_by_name ::
  "'j collaborators \<Rightarrow> WovApiCall \<Rightarrow> string \<Rightarrow> world \<Rightarrow> (failure + 'j option) \<times> world" where
  "get_clan_by_name env c clan_name w =
     (let (r, w') = request (session_get env) (api_url c @ ''clans/search?name='' @ clan_name)
                      (wov_headers c) w
      in respond r
           (\<lambda>st. (''Wov Clan API call failed with status code '' @ str_int st @ ''. Clan name: ''
                     @ clan_name, [])) w')"

definition get_clan_members ::
  "'j collaborators \<Rightarrow> WovApiCall \<Rightarrow> int \<Rightarrow> world \<Rightarrow> (failure + 'j option) \<times> world" where
  "get_clan_members env c clan_id w =
     (let (r, w') = request (session_get env) (api_url c @ ''clans/'' @ str_int clan_id @ ''/members'')
                      (wov_headers c) w
      in respond r
           (\<lambda>st. (''Wov Clan Members API call failed with status code '' @ str_int st
                     @ ''. Clan ID: '' @ str_int clan_id, [])) w')"

definition get_shop ::
  "'j collaborators \<Rightarrow> WovApiCall \<Rightarrow> world \<Rightarrow> (failure + 'j option) \<times> world" where
  "get_shop env c w =
     (let (r, w') = request (session_get env) (api_url c @ ''shop/activeOffers'') (wov_headers c) w
      in respond r (\<lambda>st. (''Wov Shop API call failed with status code %s.'', [str_int st])) w')"

definition get_user_performance ::
  "'j collaborators \<Rightarrow> string \<Rightarrow> string \<Rightarrow> world \<Rightarrow> (failure + 'j option) \<times> world" where
  "get_user_performance env username perf_type w =
     (let (r, w') = request (requests_get env)
                      (lichess_url (cls w) @ ''user/'' @ username @ ''/perf/'' @ perf_type)
                      (heap w (headers (cls w))) w
      in respond r
           (\<lambda>st. (''Lichess User Performance API call failed with status code '' @ str_int st
                     @ ''. Username: '' @ username, [])) w')"

text \<open>The wrappers as one family, with the key each one is called with.\<close>

datatype api_call =
    GetUserById int
  | GetUserByName string
  | GetClanById int
  | GetClanByName string
  | GetClanMembers int
  | GetShop
  | GetUserPerformance string string

fun invoke ::
  "'j collaborators \<Rightarrow> WovApiCall \<Rightarrow> api_call \<Rightarrow> world \<Rightarrow> (failure + 'j option) \<times> world" where
  "invoke env c (GetUserById user_id) w = get_user_by_id env c user_id w"
| "invoke env c (GetUserByName username) w = get_user_by_name env c username w"
| "invoke env c (GetClanById clan_id) w = get_clan_by_id env c clan_id w"
| "invoke env c (GetClanByName clan_name) w = get_clan_by_name env c clan_name w"
| "invoke env c (GetClanMembers clan_id) w = get_clan_members env c clan_id w"
| "invoke env c GetShop w = get_shop env c w"
| "invoke env c (GetUserPerformance username perf_type) w = get_user_performance env username perf_type w"

fun identifying_key :: "api_call \<Rightarrow> string option" where
  "identifying_key (GetUserById user_id) = Some (str_int user_id)"
| "identifying_key (GetUserByName username) = Some username"
| "identifying_key (GetClanById clan_id) = Some (str_int clan_id)"
| "identifying_key (GetClanByName clan_name) = Some clan_name"
| "identifying_key (GetClanMembers clan_id) = Some (str_int clan_id)"
| "identifying_key GetShop = None"
| "identifying_key (GetUserPerformance username perf_type) = Some username"

text \<open>What the HTTP library answers to the request of a call.\<close>

fun answer :: "'j collaborators \<Rightarrow> WovApiCall \<Rightarrow> api_call \<Rightarrow> world \<Rightarrow> failure + 'j response" where
  "answer env c (GetUserById user_id) w =
     session_get env (api_url c @ ''players/'' @ str_int user_id) (wov_headers c)"
| "answer env c (GetUserByName username) w =
     session_get env (api_url c @ ''players/search?username='' @ username) (wov_headers c)"
| "answer env c (GetClanById clan_id) w =
     session_get env (api_url c @ ''clans/'' @ str_int clan_id @ ''/info'') (wov_headers c)"
| "answer env c (GetClanByName clan_name) w =
     session_get env (api_url c @ ''clans/search?name='' @ clan_name) (wov_headers c)"
| "answer env c (GetClanMembers clan_id) w =
     session_get env (api_url c @ ''clans/'' @ str_int clan_id @ ''/members'') (wov_headers c)"
| "answer env c GetShop w = session_get env (api_url c @ ''shop/activeOffers'') (wov_headers c)"
| "answer env c (GetUserPerformance username perf_type) w =
     requests_get env (lichess_url (cls w) @ ''user/'' @ username @ ''/perf/'' @ perf_type)
       (heap w (headers (cls w)))"

subsection \<open>\<^verbatim>\<open>str.splitlines\<close> and \<^verbatim>\<open>str.strip\<close>\<close>

text \<open>
  The line boundaries of \<^verbatim>\<open>splitlines\<close> (line feed, vertical tab, form feed, carriage
  return, the separators 1C to 1E, next line, line and paragraph separator; a carriage
  return followed by a line feed is one boundary) and the whitespace of \<^verbatim>\<open>strip\<close>.
  The lines come without their boundaries, and a text that ends with a boundary has no
  empty last line.
\<close>

definition is_linebreak :: "nat \<Rightarrow> bool" where
  "is_linebreak c \<longleftrightarrow> c \<in> {10, 11, 12, 13, 28, 29, 30, 133, 8232, 8233}"

definition isspace :: "nat \<Rightarrow> bool" where
  "isspace c \<longleftrightarrow>
     (9 \<le> c \<and> c \<le> 13) \<or> (28 \<le> c \<and> c \<le> 32) \<or> c = 133 \<or> c = 160 \<or> c = 5760 \<or>
     (8192 \<le> c \<and> c \<le> 8202) \<or> c = 8232 \<or> c = 8233 \<or> c = 8239 \<or> c = 8287 \<or> c = 12288"

fun splitlines_from :: "unicode \<Rightarrow> unicode \<Rightarrow> unicode list" where
  "splitlines_from line [] = (if line = [] then [] else [line])"
| "splitlines_from line [c] = (if is_linebreak c then [line] else [line @ [c]])"
| "splitlines_from line (c # d # cs) =
     (if c = 13 \<and> d = 10 then line # splitlines_from [] cs
      else if is_linebreak c then line # splitlines_from [] (d # cs)
      else splitlines_from (line @ [c]) (d # cs))"

definition splitlines :: "unicode \<Rightarrow> unicode list" where
  "splitlines s = splitlines_from [] s"

definition strip :: "unicode \<Rightarrow> unicode" where
  "strip s = rev (dropWhile isspace (rev (dropWhile isspace s)))"

subsection \<open>\<^verbatim>\<open>LichessApiCall.export_by_player\<close>\<close>

text \<open>
  The keyword arguments a caller gives, with the defaults of the signature, and the
  dictionary \<^verbatim>\<open>params\<close> built from them.
\<close>

definition kwarg :: "(string \<times> pyval) list \<Rightarrow> string \<Rightarrow> pyval \<Rightarrow> pyval" where
  "kwarg kwargs name dflt = (case map_of kwargs name of None \<Rightarrow> dflt | Some v \<Rightarrow> v)"

definition params :: "(string \<times> pyval) list \<Rightarrow> (string \<times> pyval) list" where
  "params kwargs =
     [(''since'', kwarg kwargs ''since'' PyNone),
      (''until'', kwarg kwargs ''until'' PyNone),
      (''max'', kwarg kwargs ''limit'' PyNone),
      (''vs'', kwarg kwargs ''vs'' PyNone),
      (''rated'', kwarg kwargs ''rated'' PyNone),
      (''perfType'', kwarg kwargs ''perf_type'' PyNone),
      (''color'', kwarg kwargs ''color'' PyNone),
      (''analysed'', kwarg kwargs ''analysed'' PyNone),
      (''moves'', kwarg kwargs ''moves'' (PyBool True)),
      (''tags'', kwarg kwargs ''tags'' (PyBool True)),
      (''evals'', kwarg kwargs ''evals'' (PyBool True)),
      (''pgnInJson'', kwarg kwargs ''pgn_in_json'' (PyBool False)),
      (''opening'', kwarg kwargs ''opening'' (PyBool False)),
      (''clocks'', kwarg kwargs ''clocks'' (PyBool False)),
      (''accuracy'', kwarg kwargs ''accuracy'' (PyBool False)),
      (''ongoing'', kwarg kwargs ''ongoing'' (PyBool False)),
      (''finished'', kwarg kwargs ''finished'' (PyBool True)),
      (''literate'', kwarg kwargs ''literate'' (PyBool False)),
      (''lastFen'', kwarg kwargs ''lastFen'' (PyBool False)),
      (''sort'', kwarg kwargs ''sort'' (PyStr ''dateDesc''))]"

text \<open>
  \<^verbatim>\<open>export_by_player\<close> has a \<^verbatim>\<open>yield\<close> in its body, so it is a generator function:
  calling it runs none of the body and returns a generator object.  The generator is
  created and not yet started, or suspended at the \<^verbatim>\<open>yield\<close> with the lines still to
  come, or finished.
\<close>

datatype generator =
    Created string "(string \<times> pyval) list"
  | Suspended string "unicode list"
  | Finished

definition export_by_player :: "(string \<times> pyval) list \<Rightarrow> string \<Rightarrow> world \<Rightarrow> generator \<times> world" where
  "export_by_player kwargs username w = (Created username kwargs, w)"

text \<open>
  What \<^verbatim>\<open>next\<close> on the generator gives: an object, the end of the iteration, or a
  failure that leaves the body.
\<close>

datatype 'j next_result = Yield 'j | StopIteration | Propagates failure

text \<open>
  The handler of the \<^verbatim>\<open>try\<close> statement: a failure that is an \<^verbatim>\<open>Exception\<close> is logged
  and the generator returns; any other failure leaves the generator.
\<close>

definition except_Exception ::
  "'j collaborators \<Rightarrow> string \<Rightarrow> failure \<Rightarrow> world \<Rightarrow> 'j next_result \<times> generator \<times> world" where
  "except_Exception env username e w =
     (if isinstance_Exception e then
        (StopIteration, Finished,
         w\<lparr>logged := logger_error
              (''Lichess Export By Player API call failed. Username: '' @ username
                 @ ''. Error: '' @ str_failure env e) [] (logged w)\<rparr>)
      else (Propagates e, Finished, w))"

text \<open>The \<^verbatim>\<open>for\<close> loop over the lines, run to its next \<^verbatim>\<open>yield\<close> or to its end.\<close>

fun for_loop ::
  "'j collaborators \<Rightarrow> string \<Rightarrow> unicode list \<Rightarrow> world \<Rightarrow> 'j next_result \<times> generator \<times> world" where
  "for_loop env username [] w = (StopIteration, Finished, w)"
| "for_loop env username (line # rest) w =
     (if strip line \<noteq> [] then
        (case json_loads env line of
           Inr obj \<Rightarrow> (Yield obj, Suspended username rest, w)
         | Inl e \<Rightarrow> except_Exception env username e w)
      else for_loop env username rest w)"

text \<open>
  The body from its start: \<^verbatim>\<open>headers\<close> is bound to the dictionary object of the class
  attribute, which gets the key \<^verbatim>\<open>Accept\<close>; then the request and the loop, inside the
  \<^verbatim>\<open>try\<close> statement.  A \<^verbatim>\<open>None\<close> in place of the response fails at \<^verbatim>\<open>resp.text\<close>.
  \<^verbatim>\<open>regulated_request\<close> is taken not to change the dictionary it is given.
\<close>

definition start_body ::
  "'j collaborators \<Rightarrow> string \<Rightarrow> (string \<times> pyval) list \<Rightarrow> world \<Rightarrow> 'j next_result \<times> generator \<times> world" where
  "start_body env username kwargs w =
     (let hdrs = headers (cls w);
          w1 = w\<lparr>heap := (heap w)(hdrs := (heap w hdrs)(''Accept'' \<mapsto> ''application/x-ndjson''))\<rparr>;
          url = lichess_url (cls w1) @ ''games/user/'' @ username;
          w2 = w1\<lparr>sent := sent w1 @ [(url, heap w1 hdrs)]\<rparr>
      in case regulated_request env url (heap w1 hdrs) (params kwargs) of
           Inl e \<Rightarrow> except_Exception env username e w2
         | Inr None \<Rightarrow> except_Exception env username AttributeError w2
         | Inr (Some resp) \<Rightarrow> for_loop env username (splitlines (body resp)) w2)"

definition gen_next ::
  "'j collaborators \<Rightarrow> generator \<Rightarrow> world \<Rightarrow> 'j next_result \<times> generator \<times> world" where
  "gen_next env g w =
     (case g of
        Created username kwargs \<Rightarrow> start_body env username kwargs w
      | Suspended username rest \<Rightarrow> for_loop env username rest w
      | Finished \<Rightarrow> (StopIteration, Finished, w))"

text \<open>
  A caller that iterates the generator to its end, as a \<^verbatim>\<open>for\<close> statement or \<^verbatim>\<open>list\<close>
  does, with a bound on the number of calls of \<^verbatim>\<open>next\<close>: the objects received, the
  failure that left the generator if one did, the generator and the state at the end.
\<close>

fun iterate ::
  "nat \<Rightarrow> 'j collaborators \<Rightarrow> generator \<Rightarrow> world \<Rightarrow> ('j list \<times> failure option \<times> generator \<times> world) option" where
  "iterate 0 env g w = None"
| "iterate (Suc n) env g w =
     (case gen_next env g w of
        (Yield obj, g', w') \<Rightarrow>
          (case iterate n env g' w' of
             None \<Rightarrow> None
           | Some (objs, e, g'', w'') \<Rightarrow> Some (obj # objs, e, g'', w''))
      | (StopIteration, g', w') \<Rightarrow> Some ([], None, g', w')
      | (Propagates e, g', w') \<Rightarrow> Some ([], Some e, g', w'))"

text \<open>
  The other operations on the Lichess side a program can interleave with an export, and a
  run of them.
\<close>

datatype li_op = Perf string string | Export "(string \<times> pyval) list" string | Next generator

fun li_step :: "'j collaborators \<Rightarrow> li_op \<Rightarrow> world \<Rightarrow> world" where
  "li_step env (Perf username perf_type) w = snd (get_user_performance env username perf_type w)"
| "li_step env (Export kwargs username) w = snd (export_by_player kwargs username w)"
| "li_step env (Next g) w = snd (snd (gen_next env g w))"

definition li_run :: "'j collaborators \<Rightarrow> li_op list \<Rightarrow> world \<Rightarrow> world" where
  "li_run env ops w = fold (li_step env) ops w"

text \<open>
  For the statements about the export: the headers the request goes out with, what the
  request gives (the lines of the body, or the failure), the objects of the lines before
  the first line that \<^verbatim>\<open>json.loads\<close> rejects, and that first failure.
\<close>

definition accept_headers :: "world \<Rightarrow> dict" where
  "accept_headers w = (heap w (headers (cls w)))(''Accept'' \<mapsto> ''application/x-ndjson'')"

definition request_outcome ::
  "'j collaborators \<Rightarrow> string \<Rightarrow> (string \<times> pyval) list \<Rightarrow> world \<Rightarrow> failure + unicode list" where
  "request_outcome env username kwargs w =
     (case regulated_request env (lichess_url (cls w) @ ''games/user/'' @ username)
             (accept_headers w) (params kwargs) of
        Inl e \<Rightarrow> Inl e
      | Inr None \<Rightarrow> Inl AttributeError
      | Inr (Some resp) \<Rightarrow> Inr (splitlines (body resp)))"

fun parsed_prefix :: "(unicode \<Rightarrow> failure + 'j) \<Rightarrow> unicode list \<Rightarrow> 'j list" where
  "parsed_prefix loads [] = []"
| "parsed_prefix loads (line # rest) =
     (if strip line \<noteq> [] then
        (case loads line of Inr obj \<Rightarrow> obj # parsed_prefix loads rest | Inl e \<Rightarrow> [])
      else parsed_prefix loads rest)"

fun first_failure :: "(unicode \<Rightarrow> failure + 'j) \<Rightarrow> unicode list \<Rightarrow> failure option" where
  "first_failure loads [] = None"
| "first_failure loads (line # rest) =
     (if strip line \<noteq> [] then
        (case loads line of Inr obj \<Rightarrow> first_failure loads rest | Inl e \<Rightarrow> Some e)
      else first_failure loads rest)"

definition carries_accept :: "string \<times> dict \<Rightarrow> bool" where
  "carries_accept r \<longleftrightarrow> snd r ''Accept'' = Some ''application/x-ndjson''"

text \<open>Collaborators and inputs for concrete runs.\<close>

definition toy_loads :: "unicode \<Rightarrow> failure + int" where
  "toy_loads line = (if strip line = [49] then Inr 1 else if strip line = [50] then Inr 2 else Inl JSONDecodeError)"

definition toy_env :: "(failure + int response option) \<Rightarrow> (failure + int response) \<Rightarrow> int collaborators" where
  "toy_env export_answer get_answer =
     \<lparr>session_get = (\<lambda>url hdrs. get_answer), requests_get = (\<lambda>url hdrs. get_answer),
      regulated_request = (\<lambda>url hdrs ps. export_answer), json_loads = toy_loads,
      str_failure = (\<lambda>e. ''error'')\<rparr>"

definition ndjson :: unicode where
  "ndjson = [49, 13, 10, 32, 9, 10, 10, 50, 10]"

definition broken_ndjson :: unicode where
  "broken_ndjson = [49, 10, 120, 10, 50]"

definition malformed_ndjson :: unicode where
  "malformed_ndjson = [49, 10, 50, 10, 123, 10, 49]"

text \<open>A state and collaborators for concrete runs.\<close>

definition c0 :: WovApiCall where
  "c0 = WovApiCall_init (Some ''wov-token'')"

definition w0 :: world where
  "w0 = world_init (Some ''li-token'')"

definition interrupted :: "int collaborators" where
  "interrupted = toy_env (Inl KeyboardInterrupt) (Inl ClientError)"

definition streaming :: "unicode \<Rightarrow> int collaborators" where
  "streaming s = toy_env (Inr (Some \<lparr>status = 200, json = Inl JSONDecodeError, body = s\<rparr>))
                         (Inr \<lparr>status = 200, json = Inr 42, body = [52, 50]\<rparr>)"

text \<open>
  Collaborators that fail or refuse: no connection, an answer 200 whose body is not JSON,
  an answer 404; and one that answers 200 with a payload.
\<close>

definition offline :: "int collaborators" where
  "offline = toy_env (Inl ClientError) (Inl ClientError)"

definition not_json :: "int collaborators" where
  "not_json = toy_env (Inl ClientError) (Inr \<lparr>status = 200, json = Inl JSONDecodeError, body = [60, 104, 62]\<rparr>)"

definition not_found :: "int collaborators" where
  "not_found = toy_env (Inl ClientError) (Inr \<lparr>status = 404, json = Inl JSONDecodeError, body = []\<rparr>)"

definition found :: "int collaborators" where
  "found = toy_env (Inl ClientError) (Inr \<lparr>status = 200, json = Inr 42, body = [52, 50]\<rparr>)"

text \<open>
  Of the first failure of an export: the failure that leaves the generator, and the lines
  the handler logs.
\<close>

definition propagated :: "failure option \<Rightarrow> failure option" where
  "propagated failed =
     (case failed of None \<Rightarrow> None | Some e \<Rightarrow> if isinstance_Exception e then None else Some e)"

definition error_lines :: "'j collaborators \<Rightarrow> string \<Rightarrow> failure option \<Rightarrow> log_record list" where
  "error_lines env username failed =
     (case failed of
        None \<Rightarrow> []
      | Some e \<Rightarrow>
          if isinstance_Exception e then
            [(''Lichess Export By Player API call failed. Username: '' @ username
                @ ''. Error: '' @ str_failure env e, [])]
          else [])"

definition accept_set :: "world \<Rightarrow> bool" where
  "accept_set w \<longleftrightarrow> heap w (headers (cls w)) ''Accept'' = Some ''application/x-ndjson''"

section \<open>Proofs: the rate-limited queue\<close>

subsection \<open>The invariants hold in every reachable state\<close>

lemma inv_queue_init: "inv_queue WovAPICaller_init"
  by (simp add: inv_queue_def WovAPICaller_init_def Queue_init_def pending_tasks_def inflight_def)

lemma inv_futures_init: "inv_futures WovAPICaller_init"
  by (simp add: inv_futures_def WovAPICaller_init_def Queue_init_def pending_ids_def pending_tasks_def inflight_def)

lemma add_to_queue_eq:
  assumes "maxsize (queue s) = 0"
  shows "add_to_queue func args s =
    (Some (n_futures s),
     s\<lparr>futures := (futures s)(n_futures s := PENDING), n_futures := Suc (n_futures s),
       queue := (queue s)\<lparr>items := items (queue s) @ [(func, args, n_futures s)],
                          unfinished_tasks := unfinished_tasks (queue s) + 1\<rparr>,
       trace := Submitted (n_futures s) func args (clock s) # trace s\<rparr>)"
  using assms by (simp add: add_to_queue_def Let_def queue_put_def queue_full_def)

lemma submit_effect:
  assumes "maxsize (queue s) = 0"
  shows "pending_tasks (snd (add_to_queue func args s)) = pending_tasks s @ [(func, args, n_futures s)]"
    and "worker (snd (add_to_queue func args s)) = worker s"
    and "trace (snd (add_to_queue func args s)) = Submitted (n_futures s) func args (clock s) # trace s"
    and "n_futures (snd (add_to_queue func args s)) = Suc (n_futures s)"
    and "futures (snd (add_to_queue func args s)) = (futures s)(n_futures s := PENDING)"
    and "clock (snd (add_to_queue func args s)) = clock s"
    and "maxsize (queue (snd (add_to_queue func args s))) = 0"
    and "unfinished_tasks (queue (snd (add_to_queue func args s))) = unfinished_tasks (queue s) + 1"
  using assms by (simp_all add: add_to_queue_eq pending_tasks_def inflight_def)

text \<open>The cases of one resumption of the worker, in a state that satisfies the invariants.\<close>

lemma process_queue_cases [consumes 2, case_names idle dequeue blocked returns raises escapes wakes ended]:
  assumes "inv_queue s" "inv_futures s"
  obtains
    (idle) "worker s = AtGet" "items (queue s) = []" "process_queue s = s"
  | (dequeue) t rest where "worker s = AtGet" "items (queue s) = t # rest"
      "process_queue s = s\<lparr>queue := (queue s)\<lparr>items := rest\<rparr>, worker := AtAwait t,
          trace := Started (task_future t) (clock s) # trace s\<rparr>"
      "pending_tasks (process_queue s) = pending_tasks s"
  | (blocked) func args future where "worker s = AtAwait (func, args, future)" "func args = None"
      "process_queue s = s"
  | (returns) func args future result where "worker s = AtAwait (func, args, future)"
      "func args = Some (Returns result)"
      "process_queue s = s\<lparr>queue := (queue s)\<lparr>unfinished_tasks := unfinished_tasks (queue s) - 1\<rparr>,
          worker := AtSleep (clock s + 1), futures := (futures s)(future := RESULT result),
          trace := Resolved future (clock s) # trace s\<rparr>"
      "pending_tasks s = (func, args, future) # pending_tasks (process_queue s)"
  | (raises) func args future e where "worker s = AtAwait (func, args, future)"
      "func args = Some (Raises e)" "isinstance_Exception e"
      "process_queue s = s\<lparr>queue := (queue s)\<lparr>unfinished_tasks := unfinished_tasks (queue s) - 1\<rparr>,
          worker := AtSleep (clock s + 1), futures := (futures s)(future := EXCEPTION e),
          trace := Resolved future (clock s) # trace s\<rparr>"
      "pending_tasks s = (func, args, future) # pending_tasks (process_queue s)"
  | (escapes) func args future e where "worker s = AtAwait (func, args, future)"
      "func args = Some (Raises e)" "\<not> isinstance_Exception e"
      "process_queue s = s\<lparr>worker := Ended e, trace := Escaped future (clock s) # trace s\<rparr>"
      "pending_tasks s = (func, args, future) # pending_tasks (process_queue s)"
  | (wakes) due where "worker s = AtSleep due"
      "process_queue s = s\<lparr>worker := AtGet, clock := max (clock s) due\<rparr>"
      "pending_tasks (process_queue s) = pending_tasks s"
  | (ended) e where "worker s = Ended e" "process_queue s = s"
proof (cases "worker s")
  case AtGet
  show ?thesis
  proof (cases "items (queue s)")
    case Nil
    with AtGet idle show ?thesis by (simp add: process_queue_def queue_get_def)
  next
    case (Cons t rest)
    with AtGet dequeue[of t rest] show ?thesis
      by (cases t) (simp add: process_queue_def queue_get_def pending_tasks_def inflight_def)
  qed
next
  case (AtAwait t)
  obtain func args future where t: "t = (func, args, future)" by (cases t)
  from assms AtAwait t have pend: "futures s future = PENDING"
    by (simp add: inv_futures_def pending_ids_def pending_tasks_def inflight_def)
  from assms AtAwait have unf: "0 < unfinished_tasks (queue s)"
    by (simp add: inv_queue_def pending_tasks_def inflight_def)
  show ?thesis
  proof (cases "func args")
    case None
    with AtAwait t blocked show ?thesis by (simp add: process_queue_def)
  next
    case (Some c)
    show ?thesis
    proof (cases c)
      case (Returns result)
      with Some AtAwait t pend unf returns[of func args future result] show ?thesis
        by (simp add: process_queue_def try_except_def set_result_def queue_task_done_def
            pending_tasks_def inflight_def)
    next
      case (Raises e)
      show ?thesis
      proof (cases "isinstance_Exception e")
        case True
        with Raises Some AtAwait t pend unf raises[of func args future e] show ?thesis
          by (simp add: process_queue_def try_except_def set_exception_def queue_task_done_def
              pending_tasks_def inflight_def)
      next
        case False
        with Raises Some AtAwait t escapes[of func args future e] show ?thesis
          by (simp add: process_queue_def try_except_def pending_tasks_def inflight_def)
      qed
    qed
  qed
next
  case (AtSleep due)
  with wakes show ?thesis by (simp add: process_queue_def pending_tasks_def inflight_def)
next
  case (Ended e)
  with ended show ?thesis by (simp add: process_queue_def)
qed

lemma inv_queue_step:
  assumes "inv_queue s" "inv_futures s"
  shows "inv_queue (step a s)"
proof (cases a)
  case (Submit func args)
  from assms have m: "maxsize (queue s) = 0" by (simp add: inv_queue_def)
  from assms(1) show ?thesis unfolding Submit inv_queue_def
    by (simp add: submit_effect[OF m])
next
  case Worker
  from assms show ?thesis
    by (cases s rule: process_queue_cases)
       (use assms Worker in \<open>auto simp: inv_queue_def\<close>)
next
  case (Tick d)
  from assms(1) show ?thesis using Tick by (simp add: inv_queue_def pending_tasks_def inflight_def)
qed

lemma inv_futures_step:
  assumes "inv_queue s" "inv_futures s"
  shows "inv_futures (step a s)"
proof (cases a)
  case (Submit func args)
  from assms have m: "maxsize (queue s) = 0" by (simp add: inv_queue_def)
  from assms(2) show ?thesis unfolding Submit inv_futures_def pending_ids_def
    by (auto simp: submit_effect[OF m] sorted_wrt_append intro: less_SucI)
next
  case Worker
  from assms show ?thesis
    by (cases s rule: process_queue_cases)
       (use assms Worker in \<open>auto simp: inv_futures_def pending_ids_def\<close>)
next
  case (Tick d)
  from assms(2) show ?thesis using Tick
    by (simp add: inv_futures_def pending_ids_def pending_tasks_def inflight_def)
qed

lemma inv_order_init: "inv_order WovAPICaller_init"
  by (simp add: inv_order_def WovAPICaller_init_def Queue_init_def pending_ids_def
      pending_tasks_def inflight_def)

lemma inv_order_step:
  assumes "inv_queue s" "inv_futures s" "inv_order s"
  shows "inv_order (step a s)"
proof (cases a)
  case (Submit func args)
  from assms have m: "maxsize (queue s) = 0" by (simp add: inv_queue_def)
  let ?s' = "step (Submit func args) s"
  from assms(3) have srt: "sorted_wrt (<) (submitted_ids (trace s))"
    and bnd: "\<forall>i \<in> set (submitted_ids (trace s)). i < n_futures s"
    and ord: "case worker s of
        Ended e \<Rightarrow> prefix (map fst (completions (trace s))) (submitted_ids (trace s))
      | _ \<Rightarrow> submitted_ids (trace s) = map fst (completions (trace s)) @ pending_ids s"
    by (simp_all add: inv_order_def)
  from srt bnd have 1: "sorted_wrt (<) (submitted_ids (trace ?s'))"
    by (simp add: submit_effect[OF m] sorted_wrt_append)
  from bnd have 2: "\<forall>i \<in> set (submitted_ids (trace ?s')). i < n_futures ?s'"
    by (auto simp: submit_effect[OF m] intro: less_SucI)
  from ord have 3: "case worker ?s' of
        Ended e \<Rightarrow> prefix (map fst (completions (trace ?s'))) (submitted_ids (trace ?s'))
      | _ \<Rightarrow> submitted_ids (trace ?s') = map fst (completions (trace ?s')) @ pending_ids ?s'"
    by (cases "worker s") (simp_all add: submit_effect[OF m] pending_ids_def)
  from 1 2 3 show ?thesis unfolding Submit inv_order_def by blast
next
  case Worker
  from assms(1,2) show ?thesis
    by (cases s rule: process_queue_cases)
       (use assms(3) Worker in \<open>auto simp: inv_order_def pending_ids_def\<close>)
next
  case (Tick d)
  from assms(3) show ?thesis using Tick
    by (simp add: inv_order_def pending_ids_def pending_tasks_def inflight_def
        cong: coroutine.case_cong)
qed

lemma inv_time_init: "inv_time WovAPICaller_init"
  by (simp add: inv_time_def WovAPICaller_init_def cooled_def)

lemma inv_time_step:
  assumes "inv_queue s" "inv_futures s" "inv_time s"
  shows "inv_time (step a s)"
proof (cases a)
  case (Submit func args)
  from assms have m: "maxsize (queue s) = 0" by (simp add: inv_queue_def)
  from assms(3) show ?thesis unfolding Submit inv_time_def
    by (auto simp: submit_effect[OF m] cooled_def split: coroutine.splits)
next
  case Worker
  from assms(1,2) show ?thesis
    by (cases s rule: process_queue_cases)
       (use assms(3) Worker in \<open>auto simp: inv_time_def cooled_def rested_def split: option.splits\<close>)
next
  case (Tick d)
  from assms(3) show ?thesis using Tick
    by (auto simp: inv_time_def cooled_def split: coroutine.splits option.splits)
qed

lemma inv_exec_init: "inv_exec WovAPICaller_init"
  by (simp add: inv_exec_def WovAPICaller_init_def inflight_def)

lemma inv_exec_step:
  assumes "inv_queue s" "inv_futures s" "inv_exec s"
  shows "inv_exec (step a s)"
proof (cases a)
  case (Submit func args)
  from assms have m: "maxsize (queue s) = 0" by (simp add: inv_queue_def)
  from assms(3) show ?thesis unfolding Submit inv_exec_def inflight_def
    by (simp add: submit_effect[OF m])
next
  case Worker
  from assms(1,2) show ?thesis
    by (cases s rule: process_queue_cases)
       (use assms(3) Worker in \<open>auto simp: inv_exec_def inflight_def\<close>)
next
  case (Tick d)
  from assms(3) show ?thesis using Tick
    by (auto simp: inv_exec_def inflight_def)
qed

lemma inv_serial_step:
  assumes "inv_queue s" "inv_futures s" "inv_exec s" "inv_serial s"
  shows "inv_serial (step a s)"
proof (cases a)
  case (Submit func args)
  from assms have m: "maxsize (queue s) = 0" by (simp add: inv_queue_def)
  from assms(4) show ?thesis unfolding Submit inv_serial_def
    by (simp add: submit_effect[OF m])
next
  case Worker
  from assms(1,2) show ?thesis
    by (cases s rule: process_queue_cases)
       (use assms(3,4) Worker in \<open>auto simp: inv_serial_def inv_exec_def inflight_def\<close>)
next
  case (Tick d)
  from assms(4) show ?thesis using Tick by (simp add: inv_serial_def)
qed

lemma inv_serial_init: "inv_serial WovAPICaller_init"
  by (simp add: inv_serial_def WovAPICaller_init_def)

lemma inv_own_init: "inv_own WovAPICaller_init"
  by (simp add: inv_own_def WovAPICaller_init_def Queue_init_def pending_tasks_def inflight_def
      own_outcome_def)

lemma own_outcome_Submitted:
  "i \<noteq> j \<Longrightarrow> own_outcome (Submitted j func args t # tr) i fut = own_outcome tr i fut"
  by (simp add: own_outcome_def cong: Future.case_cong)

lemma own_outcome_other [simp]:
  "own_outcome (Started j t # tr) i fut = own_outcome tr i fut"
  "own_outcome (Resolved j t # tr) i fut = own_outcome tr i fut"
  "own_outcome (Escaped j t # tr) i fut = own_outcome tr i fut"
  "own_outcome tr i PENDING"
  by (simp_all add: own_outcome_def cong: Future.case_cong)

lemma inv_own_step:
  assumes "inv_queue s" "inv_futures s" "inv_own s"
  shows "inv_own (step a s)"
proof (cases a)
  case (Submit func args)
  from assms have m: "maxsize (queue s) = 0" by (simp add: inv_queue_def)
  let ?s' = "step (Submit func args) s"
  from assms(2) have lt: "\<forall>t \<in> set (pending_tasks s). task_future t < n_futures s"
    and fresh: "futures s (n_futures s) = PENDING"
    by (simp_all add: inv_futures_def pending_ids_def)
  from assms(3) have sub: "\<forall>t \<in> set (pending_tasks s).
        submission (trace s) (task_future t) = Some (fst t, fst (snd t))"
    and own: "\<forall>i. own_outcome (trace s) i (futures s i)"
    and res: "\<forall>i. futures s i \<noteq> PENDING \<longleftrightarrow> i \<in> set (map fst (completions (trace s)))"
    by (simp_all add: inv_own_def)
  from lt sub have 1: "\<forall>t \<in> set (pending_tasks ?s').
        submission (trace ?s') (task_future t) = Some (fst t, fst (snd t))"
    by (auto simp: submit_effect[OF m])
  have 2: "\<forall>i. own_outcome (trace ?s') i (futures ?s' i)"
  proof
    fix i
    show "own_outcome (trace ?s') i (futures ?s' i)"
    proof (cases "i = n_futures s")
      case True
      then show ?thesis by (simp add: submit_effect[OF m])
    next
      case False
      with own show ?thesis by (simp add: submit_effect[OF m] own_outcome_Submitted)
    qed
  qed
  from res fresh have 3: "\<forall>i. futures ?s' i \<noteq> PENDING \<longleftrightarrow> i \<in> set (map fst (completions (trace ?s')))"
    by (auto simp: submit_effect[OF m])
  from 1 2 3 show ?thesis unfolding Submit inv_own_def by blast
next
  case Worker
  from assms(1,2) show ?thesis
  proof (cases s rule: process_queue_cases)
    case (returns func args future result)
    from assms(3) returns(1) have "submission (trace s) future = Some (func, args)"
      by (auto simp: inv_own_def pending_tasks_def inflight_def)
    with returns(2) have "own_outcome (trace s) future (RESULT result)"
      by (simp add: own_outcome_def)
    with assms(3) returns Worker show ?thesis
      by (auto simp: inv_own_def)
  next
    case (raises func args future e)
    from assms(3) raises(1) have "submission (trace s) future = Some (func, args)"
      by (auto simp: inv_own_def pending_tasks_def inflight_def)
    with raises(2) have "own_outcome (trace s) future (EXCEPTION e)"
      by (simp add: own_outcome_def)
    with assms(3) raises Worker show ?thesis
      by (auto simp: inv_own_def)
  qed (use assms(3) Worker in \<open>auto simp: inv_own_def\<close>)
next
  case (Tick d)
  from assms(3) show ?thesis using Tick
    by (simp add: inv_own_def pending_tasks_def inflight_def)
qed

lemma invariant_init: "invariant WovAPICaller_init"
  by (simp add: invariant_def inv_queue_init inv_futures_init inv_order_init inv_time_init
      inv_exec_init inv_serial_init inv_own_init)

lemma invariant_step: "invariant s \<Longrightarrow> invariant (step a s)"
  by (simp add: invariant_def inv_queue_step inv_futures_step inv_order_step inv_time_step
      inv_exec_step inv_serial_step inv_own_step)

lemma invariant_fold: "invariant s \<Longrightarrow> invariant (fold step acts s)"
  by (induction acts arbitrary: s) (simp_all add: invariant_step)

lemma invariant_run: "invariant s \<Longrightarrow> invariant (run acts s)"
  by (simp add: run_def invariant_fold)

lemma invariant_reachable: "invariant (run acts WovAPICaller_init)"
  by (simp add: invariant_run invariant_init)

lemma run_Nil: "run [] s = s"
  by (simp add: run_def)

lemma run_Cons: "run (a # acts) s = run acts (step a s)"
  by (simp add: run_def)

lemma run_append: "run (acts @ acts') s = run acts' (run acts s)"
  by (simp add: run_def)

subsection \<open>Evaluating a concrete schedule\<close>

lemmas eval_defs = run_Nil run_Cons add_to_queue_def Let_def queue_put_def queue_full_def process_queue_def
  queue_get_def try_except_def set_result_def set_exception_def queue_task_done_def
  WovAPICaller_init_def Queue_init_def

lemma last_resolved_completions:
  "last_resolved tr = (if completions tr = [] then None else Some (snd (last (completions tr))))"
  by (induction tr rule: completions.induct) simp_all

lemma rate_limited_spaced:
  assumes "rate_limited tr" "Suc k < length (completions tr)"
  shows "snd (completions tr ! k) + 1 \<le> snd (completions tr ! Suc k)"
  using assms
proof (induction tr rule: completions.induct)
  case 1
  then show ?case by simp
next
  case (2 i t tr)
  show ?case
  proof (cases "Suc k < length (completions tr)")
    case True
    with 2 show ?thesis by (simp add: nth_append)
  next
    case False
    with 2(3) have k: "Suc k = length (completions tr)" by simp
    then have ne: "completions tr \<noteq> []" by auto
    from k have "completions tr ! k = last (completions tr)"
      by (metis diff_Suc_1 last_conv_nth ne)
    moreover from 2(2) ne have "snd (last (completions tr)) + 1 \<le> t"
      by (simp add: cooled_def last_resolved_completions)
    ultimately show ?thesis using k by (simp add: nth_append)
  qed
qed simp_all

subsection \<open>Order and spacing of completions\<close>

lemma stuck_step:
  assumes "stuck (worker s)"
  shows "worker (step a s) = worker s \<and> completions (trace (step a s)) = completions (trace s) \<and>
         started_ids (trace (step a s)) = started_ids (trace s)"
proof (cases a)
  case (Submit func args)
  then show ?thesis by (simp add: add_to_queue_def Let_def split: option.splits)
next
  case Worker
  from assms have "process_queue s = s"
    by (cases "worker s" rule: stuck.cases) (simp_all add: process_queue_def)
  with Worker show ?thesis by simp
next
  case (Tick d)
  then show ?thesis by simp
qed

lemma stuck_is_final:
  assumes "stuck (worker s)"
  shows "worker (run acts s) = worker s \<and> completions (trace (run acts s)) = completions (trace s) \<and>
         started_ids (trace (run acts s)) = started_ids (trace s)"
  using assms
proof (induction acts arbitrary: s)
  case Nil
  then show ?case by (simp add: run_Nil)
next
  case (Cons a acts)
  from stuck_step[OF Cons.prems, of a] Cons.IH[of "step a s"] Cons.prems
  show ?case by (simp add: run_Cons)
qed

lemma stuck_never_resolves:
  assumes "invariant s" "stuck (worker s)" "futures s i = PENDING"
  shows "futures (run acts s) i = PENDING"
proof -
  from assms(1) have "invariant (run acts s)" by (rule invariant_run)
  then have "futures (run acts s) i \<noteq> PENDING \<longleftrightarrow> i \<in> set (map fst (completions (trace (run acts s))))"
    by (simp add: invariant_def inv_own_def)
  moreover from assms(1) have "futures s i \<noteq> PENDING \<longleftrightarrow> i \<in> set (map fst (completions (trace s)))"
    by (simp add: invariant_def inv_own_def)
  ultimately show ?thesis using stuck_is_final[OF assms(2), of acts] assms(3) by simp
qed

lemma prefix_order:
  assumes "inv_order s"
  shows "prefix (map fst (completions (trace s))) (submitted_ids (trace s))"
  using assms by (cases "worker s") (simp_all add: inv_order_def)

lemma completes_then_sleeps:
  assumes "invariant s" "worker s = AtAwait (func, args, future)" "func args = Some c" "catchable c"
  shows "worker (process_queue s) = AtSleep (clock s + 1)"
    and "completions (trace (process_queue s)) = completions (trace s) @ [(future, clock s)]"
    and "clock (process_queue s) = clock s"
proof -
  from assms(1) have i: "inv_queue s" "inv_futures s" by (simp_all add: invariant_def)
  from i show "worker (process_queue s) = AtSleep (clock s + 1)"
    by (cases s rule: process_queue_cases) (use assms in auto)
  from i show "completions (trace (process_queue s)) = completions (trace s) @ [(future, clock s)]"
    by (cases s rule: process_queue_cases) (use assms in auto)
  from i show "clock (process_queue s) = clock s"
    by (cases s rule: process_queue_cases) (use assms in auto)
qed

lemma escapes_then_ends:
  assumes "invariant s" "worker s = AtAwait (func, args, future)" "func args = Some c" "\<not> catchable c"
  shows "stuck (worker (process_queue s))"
    and "started_ids (trace (run acts (process_queue s))) = started_ids (trace s)"
proof -
  from assms(1) have i: "inv_queue s" "inv_futures s" by (simp_all add: invariant_def)
  from i show st: "stuck (worker (process_queue s))"
    by (cases s rule: process_queue_cases) (use assms in auto)
  from i have "started_ids (trace (process_queue s)) = started_ids (trace s)"
    by (cases s rule: process_queue_cases) (use assms in auto)
  with stuck_is_final[OF st, of acts]
  show "started_ids (trace (run acts (process_queue s))) = started_ids (trace s)" by simp
qed

subsection \<open>Submission\<close>

text \<open>
  Claim C4.  In every reachable state \<^verbatim>\<open>add_to_queue\<close> returns at once (it is not
  suspended in \<^verbatim>\<open>put\<close>, the queue being unbounded, and it has no failing path): the
  task is appended at the tail of the queue, and the future returned is a new one (no
  earlier call returned it, no task still owed holds it) that is pending; the worker, the
  clock and the other futures are unchanged.
\<close>

theorem add_to_queue_never_fails:
  "(let s = run acts WovAPICaller_init;
        future = n_futures s;
        r = add_to_queue func args s;
        s' = snd r
    in fst r = Some future \<and>
       items (queue s') = items (queue s) @ [(func, args, future)] \<and>
       futures s' future = PENDING \<and>
       future \<notin> set (submitted_ids (trace s)) \<and>
       future \<notin> set (pending_ids s) \<and>
       futures s' = (futures s)(future := PENDING) \<and>
       futures s future = PENDING \<and>
       worker s' = worker s \<and>
       clock s' = clock s)"
proof -
  define s where "s = run acts WovAPICaller_init"
  have inv: "invariant s" unfolding s_def by (rule invariant_reachable)
  then have m: "maxsize (queue s) = 0" by (simp add: invariant_def inv_queue_def)
  from inv have "\<forall>i \<in> set (submitted_ids (trace s)). i < n_futures s"
    by (simp add: invariant_def inv_order_def)
  then have 1: "n_futures s \<notin> set (submitted_ids (trace s))" by auto
  from inv have "\<forall>i \<in> set (pending_ids s). i < n_futures s"
    by (simp add: invariant_def inv_futures_def)
  then have 2: "n_futures s \<notin> set (pending_ids s)" by auto
  from inv have 3: "futures s (n_futures s) = PENDING"
    by (simp add: invariant_def inv_futures_def)
  from 1 2 3 show ?thesis unfolding s_def[symmetric] Let_def
    by (simp add: add_to_queue_eq[OF m])
qed

theorem add_to_queue_never_fails_witness:
  "fst (add_to_queue (\<lambda>_. Some (Returns 7)) () (run scenario WovAPICaller_init)) = Some 3 \<and>
   items (queue (snd (add_to_queue (\<lambda>_. Some (Returns 7)) () (run scenario WovAPICaller_init))))
     = [(\<lambda>_. Some (Returns 7), (), 3)] \<and>
   futures (snd (add_to_queue (\<lambda>_. Some (Returns 7)) () (run scenario WovAPICaller_init))) 3 = PENDING \<and>
   worker (snd (add_to_queue (\<lambda>_. Some (Returns 7)) () (run scenario WovAPICaller_init))) = AtSleep 3"
proof -
  have n: "n_futures (run scenario WovAPICaller_init) = 3"
    by (simp add: scenario_def eval_defs)
  have q: "items (queue (run scenario WovAPICaller_init)) = []"
    by (simp add: scenario_def eval_defs)
  have w: "worker (run scenario WovAPICaller_init) = AtSleep 3"
    by (simp add: scenario_def eval_defs)
  from add_to_queue_never_fails[where func="\<lambda>_. Some (Returns 7)" and args="()" and acts=scenario] n q w show ?thesis
    by (simp add: Let_def)
qed

subsection \<open>One operation at a time\<close>

text \<open>
  Claim C5.  In every reachable state of a \<^verbatim>\<open>WovAPICaller\<close> at most one submitted
  operation is executing, namely the one its worker is awaiting, and no operation was ever
  started while another one was still executing.
\<close>

theorem one_task_at_a_time:
  "(let s = run acts WovAPICaller_init in
      serial (trace s) \<and>
      length (executing (trace s)) \<le> 1 \<and>
      executing (trace s) = map task_future (inflight s))"
proof -
  define s where "s = run acts WovAPICaller_init"
  have inv: "invariant s" unfolding s_def by (rule invariant_reachable)
  then have "serial (trace s)" "executing (trace s) = map task_future (inflight s)"
    by (simp_all add: invariant_def inv_serial_def inv_exec_def)
  moreover have "length (inflight s) \<le> 1"
    by (simp add: inflight_def split: coroutine.splits)
  ultimately show ?thesis unfolding s_def[symmetric] Let_def by simp
qed

theorem one_task_at_a_time_witness:
  "executing (trace (run (take 7 scenario) WovAPICaller_init)) = [1] \<and>
   worker (run (take 7 scenario) WovAPICaller_init) \<noteq> AtGet \<and>
   serial (trace (run (take 7 scenario) WovAPICaller_init)) \<and>
   serial (trace (run scenario WovAPICaller_init)) \<and>
   executing (trace (run scenario WovAPICaller_init)) = []"
proof -
  have e: "executing (trace (run (take 7 scenario) WovAPICaller_init)) = [1]"
    by (simp add: scenario_def eval_defs)
  have e': "executing (trace (run scenario WovAPICaller_init)) = []"
    by (simp add: scenario_def eval_defs)
  have w: "worker (run (take 7 scenario) WovAPICaller_init) \<noteq> AtGet"
    by (simp add: scenario_def eval_defs)
  from one_task_at_a_time[of "take 7 scenario"] one_task_at_a_time[of scenario] e e' w
  show ?thesis by (simp add: Let_def)
qed

subsection \<open>The empty queue\<close>

lemma idle_stays:
  assumes "worker s = AtGet" "items (queue s) = []" "list_all (\<lambda>a. \<not> is_Submit a) acts"
  shows "run acts s = s\<lparr>clock := clock (run acts s)\<rparr>"
  using assms
proof (induction acts arbitrary: s)
  case Nil
  then show ?case by (simp add: run_Nil)
next
  case (Cons a acts)
  show ?case
  proof (cases a)
    case (Submit func args)
    with Cons.prems show ?thesis by simp
  next
    case Worker
    with Cons.prems have "step a s = s" by (simp add: process_queue_def queue_get_def)
    with Cons show ?thesis by (simp add: run_Cons)
  next
    case (Tick d)
    let ?s = "s\<lparr>clock := clock s + max 0 d\<rparr>"
    from Cons.prems have "run acts ?s = ?s\<lparr>clock := clock (run acts ?s)\<rparr>"
      by (intro Cons.IH) simp_all
    with Tick show ?thesis by (simp add: run_Cons)
  qed
qed

lemma no_start_without_items:
  assumes "invariant s" "items (queue s) = []" "list_all (\<lambda>a. \<not> is_Submit a) acts"
  shows "started_ids (trace (run acts s)) = started_ids (trace s) \<and> items (queue (run acts s)) = []"
  using assms
proof (induction acts arbitrary: s)
  case Nil
  then show ?case by (simp add: run_Nil)
next
  case (Cons a acts)
  from Cons.prems(1) have i: "inv_queue s" "inv_futures s" by (simp_all add: invariant_def)
  have "started_ids (trace (step a s)) = started_ids (trace s) \<and> items (queue (step a s)) = []"
  proof (cases a)
    case (Submit func args)
    with Cons.prems show ?thesis by simp
  next
    case Worker
    from i show ?thesis
      by (cases s rule: process_queue_cases) (use Worker Cons.prems(2) in auto)
  next
    case (Tick d)
    with Cons.prems show ?thesis by simp
  qed
  moreover from Cons.prems have "invariant (step a s)" by (simp add: invariant_step)
  moreover from Cons.prems have "list_all (\<lambda>a. \<not> is_Submit a) acts" by simp
  ultimately show ?case using Cons.IH[of "step a s"] by (simp add: run_Cons)
qed

text \<open>
  Claim C6.  While the queue is empty and nothing is submitted, the worker starts no
  operation; once it is suspended in \<^verbatim>\<open>get\<close> on the empty queue, resuming it is
  no step at all, and nothing but the clock changes until a task is submitted.  With no
  task ever submitted the caller stays in its initial state for ever: no observation, and
  the worker never ends.
\<close>

theorem empty_queue_suspends:
  "(let s = run acts WovAPICaller_init in
      list_all (\<lambda>a. \<not> is_Submit a) acts' \<and> items (queue s) = [] \<longrightarrow>
        started_ids (trace (run acts' s)) = started_ids (trace s) \<and>
        (worker s = AtGet \<longrightarrow>
           process_queue s = s \<and> run acts' s = s\<lparr>clock := clock (run acts' s)\<rparr>)) \<and>
   (list_all (\<lambda>a. \<not> is_Submit a) acts' \<longrightarrow>
      run acts' WovAPICaller_init = WovAPICaller_init\<lparr>clock := clock (run acts' WovAPICaller_init)\<rparr>)"
proof -
  define s where "s = run acts WovAPICaller_init"
  have inv: "invariant s" unfolding s_def by (rule invariant_reachable)
  have 1: "list_all (\<lambda>a. \<not> is_Submit a) acts' \<and> items (queue s) = [] \<longrightarrow>
        started_ids (trace (run acts' s)) = started_ids (trace s) \<and>
        (worker s = AtGet \<longrightarrow>
           process_queue s = s \<and> run acts' s = s\<lparr>clock := clock (run acts' s)\<rparr>)"
  proof (intro impI conjI; elim conjE)
    assume a: "list_all (\<lambda>a. \<not> is_Submit a) acts'" "items (queue s) = []"
    with inv show "started_ids (trace (run acts' s)) = started_ids (trace s)"
      by (simp add: no_start_without_items)
    assume w: "worker s = AtGet"
    with a show "process_queue s = s" by (simp add: process_queue_def queue_get_def)
    from w a show "run acts' s = s\<lparr>clock := clock (run acts' s)\<rparr>" by (intro idle_stays)
  qed
  have 2: "list_all (\<lambda>a. \<not> is_Submit a) acts' \<longrightarrow>
      run acts' WovAPICaller_init = WovAPICaller_init\<lparr>clock := clock (run acts' WovAPICaller_init)\<rparr>"
  proof
    assume "list_all (\<lambda>a. \<not> is_Submit a) acts'"
    then show "run acts' WovAPICaller_init
        = WovAPICaller_init\<lparr>clock := clock (run acts' WovAPICaller_init)\<rparr>"
      by (intro idle_stays) (simp_all add: WovAPICaller_init_def Queue_init_def)
  qed
  from 1 2 show ?thesis unfolding s_def[symmetric] Let_def by blast
qed

theorem empty_queue_suspends_witness:
  "list_all (\<lambda>a. \<not> is_Submit a) idling \<and>
   items (queue (run (scenario @ [Worker]) WovAPICaller_init)) = [] \<and>
   worker (run (scenario @ [Worker]) WovAPICaller_init) = AtGet \<and>
   started_ids (trace (run idling (run (scenario @ [Worker]) WovAPICaller_init))) = [0, 1, 2] \<and>
   run idling (run (scenario @ [Worker]) WovAPICaller_init)
     = (run (scenario @ [Worker]) WovAPICaller_init)
        \<lparr>clock := clock (run idling (run (scenario @ [Worker]) WovAPICaller_init))\<rparr> \<and>
   run idling WovAPICaller_init = WovAPICaller_init\<lparr>clock := 11 / 2\<rparr>"
proof -
  have a: "list_all (\<lambda>a. \<not> is_Submit a) idling"
    by (simp add: idling_def)
  have q: "items (queue (run (scenario @ [Worker]) WovAPICaller_init)) = []"
    "worker (run (scenario @ [Worker]) WovAPICaller_init) = AtGet"
    "started_ids (trace (run (scenario @ [Worker]) WovAPICaller_init)) = [0, 1, 2]"
    by (simp_all add: scenario_def eval_defs)
  have c: "clock (run idling WovAPICaller_init) = 11 / 2"
    by (simp add: idling_def eval_defs)
  from empty_queue_suspends[where acts'=idling and acts="scenario @ [Worker]"] a q c
  show ?thesis by (simp add: Let_def)
qed

subsection \<open>Resolution of futures\<close>

lemma upto_future_nonempty: "i \<in> task_future ` set ts \<Longrightarrow> upto_future i ts \<noteq> []"
  by (induction ts) auto

lemma upto_future_append:
  "i \<in> task_future ` set ts \<Longrightarrow> upto_future i (ts @ ts') = upto_future i ts"
  by (induction ts) auto

lemma upto_future_head: "upto_future i (t # ts) = t # tl (upto_future i (t # ts))"
  by simp

lemma resolved_stays_step:
  assumes "invariant s" "futures s i \<noteq> PENDING"
  shows "futures (step a s) i = futures s i"
proof (cases a)
  case (Submit func args)
  from assms have m: "maxsize (queue s) = 0" by (simp add: invariant_def inv_queue_def)
  from assms have "i \<noteq> n_futures s" by (auto simp: invariant_def inv_futures_def)
  then show ?thesis unfolding Submit step.simps by (simp add: submit_effect[OF m])
next
  case Worker
  from assms(1) have i: "inv_queue s" "inv_futures s" by (simp_all add: invariant_def)
  from i(2) have p: "\<forall>t \<in> set (pending_tasks s). futures s (task_future t) = PENDING"
    by (simp add: inv_futures_def pending_ids_def)
  from i show ?thesis
    by (cases s rule: process_queue_cases)
       (use Worker assms(2) p in \<open>auto simp: pending_tasks_def inflight_def\<close>)
next
  case (Tick d)
  then show ?thesis by simp
qed

lemma resolved_stays:
  assumes "invariant s" "futures s i \<noteq> PENDING"
  shows "futures (run acts s) i = futures s i"
  using assms
proof (induction acts arbitrary: s)
  case Nil
  then show ?case by (simp add: run_Nil)
next
  case (Cons a acts)
  from Cons.prems have "futures (step a s) i = futures s i" by (rule resolved_stays_step)
  moreover from Cons.prems have "invariant (step a s)" by (simp add: invariant_step)
  ultimately show ?case using Cons.IH[of "step a s"] Cons.prems(2) by (simp add: run_Cons)
qed

lemma worker_progress:
  assumes "invariant s" "i \<in> set (pending_ids s)" "clear s i"
  shows "(futures (process_queue s) i \<noteq> PENDING \<and> work s i = 1) \<or>
         (i \<in> set (pending_ids (process_queue s)) \<and> clear (process_queue s) i \<and>
          Suc (work (process_queue s) i) = work s i)"
proof -
  from assms(1) have i: "inv_queue s" "inv_futures s" by (simp_all add: invariant_def)
  from assms(2) have mem: "i \<in> task_future ` set (pending_tasks s)"
    by (simp add: pending_ids_def)
  then have ne: "upto_future i (pending_tasks s) \<noteq> []" by (rule upto_future_nonempty)
  then have "0 < length (upto_future i (pending_tasks s))" by simp
  then have len: "3 \<le> 3 * length (upto_future i (pending_tasks s))" by arith
  from assms(3) have al: "alive (worker s)"
    and cmp: "list_all completes (upto_future i (pending_tasks s))"
    by (simp_all add: clear_def)
  from i show ?thesis
  proof (cases s rule: process_queue_cases)
    case idle
    with mem show ?thesis by (simp add: pending_tasks_def inflight_def)
  next
    case (dequeue t rest)
    with assms(2) cmp len show ?thesis
      by (simp add: pending_ids_def clear_def work_def) arith
  next
    case (blocked func args future)
    then have "pending_tasks s = (func, args, future) # items (queue s)"
      by (simp add: pending_tasks_def inflight_def)
    with cmp blocked(2) show ?thesis by (simp split: if_splits)
  next
    case (returns func args future result)
    show ?thesis
    proof (cases "future = i")
      case True
      with returns show ?thesis by (simp add: work_def)
    next
      case False
      with returns mem cmp show ?thesis
        by (auto simp: pending_ids_def clear_def work_def)
    qed
  next
    case (raises func args future e)
    show ?thesis
    proof (cases "future = i")
      case True
      with raises show ?thesis by (simp add: work_def)
    next
      case False
      with raises mem cmp show ?thesis
        by (auto simp: pending_ids_def clear_def work_def)
    qed
  next
    case (escapes func args future e)
    with cmp show ?thesis by (simp split: if_splits)
  next
    case (wakes due)
    with assms(2) cmp len show ?thesis
      by (simp add: pending_ids_def clear_def work_def)
  next
    case (ended e)
    with al show ?thesis by simp
  qed
qed

lemma other_step_keeps:
  assumes "invariant s" "i \<in> set (pending_ids s)" "clear s i" "a \<noteq> Worker"
  shows "i \<in> set (pending_ids (step a s)) \<and> clear (step a s) i \<and> work (step a s) i = work s i"
proof (cases a)
  case (Submit func args)
  from assms have m: "maxsize (queue s) = 0" by (simp add: invariant_def inv_queue_def)
  from assms(2) have mem: "i \<in> task_future ` set (pending_tasks s)"
    by (simp add: pending_ids_def)
  from assms(3) mem show ?thesis unfolding Submit step.simps
    by (simp add: pending_ids_def clear_def work_def submit_effect[OF m] upto_future_append)
next
  case Worker
  with assms(4) show ?thesis by simp
next
  case (Tick d)
  with assms(2,3) show ?thesis
    by (simp add: pending_ids_def clear_def work_def pending_tasks_def inflight_def)
qed

lemma work_positive:
  assumes "i \<in> set (pending_ids s)"
  shows "0 < work s i"
proof -
  from assms have "upto_future i (pending_tasks s) \<noteq> []"
    by (simp add: pending_ids_def upto_future_nonempty)
  then have "0 < length (upto_future i (pending_tasks s))" by simp
  then have "3 \<le> 3 * length (upto_future i (pending_tasks s))" by arith
  then show ?thesis unfolding work_def by (cases "worker s") auto
qed

lemma eventually_resolved:
  assumes "invariant s" "i \<in> set (pending_ids s)" "clear s i" "work s i \<le> count_list acts Worker"
  shows "futures (run acts s) i \<noteq> PENDING"
  using assms
proof (induction acts arbitrary: s)
  case Nil
  from Nil(2) have "0 < work s i" by (rule work_positive)
  with Nil(4) show ?case by simp
next
  case (Cons a acts)
  have inv': "invariant (step a s)" using Cons.prems(1) by (rule invariant_step)
  show ?case
  proof (cases "a = Worker")
    case True
    from worker_progress[OF Cons.prems(1-3)] show ?thesis
    proof
      assume "futures (process_queue s) i \<noteq> PENDING \<and> work s i = 1"
      with True inv' show ?thesis by (simp add: run_Cons resolved_stays)
    next
      assume p: "i \<in> set (pending_ids (process_queue s)) \<and> clear (process_queue s) i \<and>
          Suc (work (process_queue s) i) = work s i"
      with Cons.prems(4) True have "work (process_queue s) i \<le> count_list acts Worker" by simp
      with p True inv' show ?thesis by (simp add: run_Cons Cons.IH)
    qed
  next
    case False
    from other_step_keeps[OF Cons.prems(1-3) False] Cons.prems(4) False inv'
    show ?thesis by (simp add: run_Cons Cons.IH)
  qed
qed

lemma completions_distinct:
  assumes "inv_order s"
  shows "distinct (map fst (completions (trace s)))"
proof -
  from assms have "sorted_wrt (<) (submitted_ids (trace s))" by (simp add: inv_order_def)
  then have "distinct (submitted_ids (trace s))"
    by (simp add: strict_sorted_iff[symmetric] sorted_wrt_iff_nth_less distinct_conv_nth)
       (metis nat_neq_iff)
  moreover have "prefix (map fst (completions (trace s))) (submitted_ids (trace s))"
    using assms by (rule prefix_order)
  ultimately show ?thesis by (auto simp: prefix_def)
qed

lemma submitted_accounted:
  assumes "inv_order s" "inv_own s" "alive (worker s)" "i \<in> set (submitted_ids (trace s))"
  shows "i \<in> set (pending_ids s) \<or> futures s i \<noteq> PENDING"
proof -
  from assms(1,3) have "submitted_ids (trace s) = map fst (completions (trace s)) @ pending_ids s"
    by (cases "worker s") (simp_all add: inv_order_def)
  with assms(4) have "i \<in> set (map fst (completions (trace s))) \<or> i \<in> set (pending_ids s)"
    by auto
  with assms(2) show ?thesis by (auto simp: inv_own_def)
qed

subsection \<open>A failure of the operation\<close>

lemma next_task_runs:
  assumes "invariant s" "worker s = AtSleep due" "items (queue s) = t # rest"
  shows "worker (process_queue (process_queue s)) = AtAwait t"
    and "items (queue (process_queue (process_queue s))) = rest"
    and "started_ids (trace (process_queue (process_queue s))) = started_ids (trace s) @ [task_future t]"
    and "futures (process_queue (process_queue s)) = futures s"
    and "fst t (fst (snd t)) = Some c \<Longrightarrow> catchable c \<Longrightarrow>
         futures (process_queue (process_queue (process_queue s))) = (futures s)(task_future t := resolution c)"
proof -
  let ?s1 = "process_queue s" and ?s2 = "process_queue (process_queue s)"
  from assms(2) have s1: "?s1 = s\<lparr>worker := AtGet, clock := max (clock s) due\<rparr>"
    by (simp add: process_queue_def)
  obtain func args future where t: "t = (func, args, future)" by (cases t)
  from s1 assms(3) t have s2: "?s2 = s\<lparr>worker := AtGet, clock := max (clock s) due,
      queue := (queue s)\<lparr>items := rest\<rparr>, worker := AtAwait t,
      trace := Started future (max (clock s) due) # trace s\<rparr>"
    by (simp add: process_queue_def queue_get_def)
  from s2 show "worker ?s2 = AtAwait t" by simp
  from s2 show "items (queue ?s2) = rest" by simp
  from s2 t show "started_ids (trace ?s2) = started_ids (trace s) @ [task_future t]" by simp
  from s2 show f2: "futures ?s2 = futures s" by simp
  assume c: "fst t (fst (snd t)) = Some c" "catchable c"
  have "invariant (step Worker (step Worker s))" using assms(1) by (intro invariant_step)
  then have inv2: "inv_queue ?s2" "inv_futures ?s2" by (simp_all add: invariant_def)
  from s2 t have w2: "worker ?s2 = AtAwait (func, args, future)" by simp
  from inv2 show "futures (process_queue ?s2) = (futures s)(task_future t := resolution c)"
    by (cases ?s2 rule: process_queue_cases) (use w2 c t f2 in auto)
qed

text \<open>
  Claim C2, as amended.  When the operation the worker awaits raises a failure that is an
  \<^verbatim>\<open>Exception\<close>, the worker sets that failure as the exception of the task's own future,
  which was pending, and touches no other future; the failure does not leave the loop:
  the worker goes to its cooldown sleep with the queue as it was, then dequeues the next
  queued task and runs its operation, whose outcome resolves that task's future.
\<close>

theorem captured_exception_resolves_own_future:
  "(let s = run acts WovAPICaller_init;
        s1 = process_queue s;
        s3 = process_queue (process_queue s1)
    in worker s = AtAwait (func, args, future) \<and> func args = Some (Raises e) \<and>
       isinstance_Exception e \<longrightarrow>
         futures s future = PENDING \<and>
         futures s1 = (futures s)(future := EXCEPTION e) \<and>
         worker s1 = AtSleep (clock s + 1) \<and>
         items (queue s1) = items (queue s) \<and>
         (case items (queue s) of
            [] \<Rightarrow> worker s3 = AtGet
          | t # rest \<Rightarrow>
              worker s3 = AtAwait t \<and> items (queue s3) = rest \<and>
              started_ids (trace s3) = started_ids (trace s) @ [task_future t] \<and>
              (\<forall>c. fst t (fst (snd t)) = Some c \<and> catchable c \<longrightarrow>
                 futures (process_queue s3) = (futures s1)(task_future t := resolution c))))"
proof -
  define s where "s = run acts WovAPICaller_init"
  have inv: "invariant s" unfolding s_def by (rule invariant_reachable)
  then have i: "inv_queue s" "inv_futures s" by (simp_all add: invariant_def)
  have inv1: "invariant (process_queue s)" using invariant_step[OF inv, of Worker] by simp
  {
    assume a: "worker s = AtAwait (func, args, future)" "func args = Some (Raises e)"
      "isinstance_Exception e"
    from i(2) a(1) have p: "futures s future = PENDING"
      by (simp add: inv_futures_def pending_ids_def pending_tasks_def inflight_def)
    from i have s1: "process_queue s =
        s\<lparr>queue := (queue s)\<lparr>unfinished_tasks := unfinished_tasks (queue s) - 1\<rparr>,
          worker := AtSleep (clock s + 1), futures := (futures s)(future := EXCEPTION e),
          trace := Resolved future (clock s) # trace s\<rparr>"
      by (cases s rule: process_queue_cases) (use a in auto)
    then have w1: "worker (process_queue s) = AtSleep (clock s + 1)"
      and q1: "items (queue (process_queue s)) = items (queue s)"
      and f1: "futures (process_queue s) = (futures s)(future := EXCEPTION e)"
      and t1: "started_ids (trace (process_queue s)) = started_ids (trace s)"
      by simp_all
    have "case items (queue s) of
            [] \<Rightarrow> worker (process_queue (process_queue (process_queue s))) = AtGet
          | t # rest \<Rightarrow>
              worker (process_queue (process_queue (process_queue s))) = AtAwait t \<and>
              items (queue (process_queue (process_queue (process_queue s)))) = rest \<and>
              started_ids (trace (process_queue (process_queue (process_queue s))))
                = started_ids (trace s) @ [task_future t] \<and>
              (\<forall>c. fst t (fst (snd t)) = Some c \<and> catchable c \<longrightarrow>
                 futures (process_queue (process_queue (process_queue (process_queue s))))
                   = (futures (process_queue s))(task_future t := resolution c))"
    proof (cases "items (queue s)")
      case Nil
      with w1 q1 show ?thesis by (simp add: process_queue_def queue_get_def)
    next
      case (Cons t rest)
      with q1 have q: "items (queue (process_queue s)) = t # rest" by simp
      from next_task_runs[OF inv1 w1 q] t1 Cons show ?thesis by simp
    qed
    with p f1 w1 q1 have "futures s future = PENDING \<and>
         futures (process_queue s) = (futures s)(future := EXCEPTION e) \<and>
         worker (process_queue s) = AtSleep (clock s + 1) \<and>
         items (queue (process_queue s)) = items (queue s) \<and>
         (case items (queue s) of
            [] \<Rightarrow> worker (process_queue (process_queue (process_queue s))) = AtGet
          | t # rest \<Rightarrow>
              worker (process_queue (process_queue (process_queue s))) = AtAwait t \<and>
              items (queue (process_queue (process_queue (process_queue s)))) = rest \<and>
              started_ids (trace (process_queue (process_queue (process_queue s))))
                = started_ids (trace s) @ [task_future t] \<and>
              (\<forall>c. fst t (fst (snd t)) = Some c \<and> catchable c \<longrightarrow>
                 futures (process_queue (process_queue (process_queue (process_queue s))))
                   = (futures (process_queue s))(task_future t := resolution c)))"
      by simp
  }
  then show ?thesis unfolding s_def[symmetric] Let_def by blast
qed

theorem captured_exception_resolves_own_future_witness:
  "worker (run (take 7 scenario) WovAPICaller_init) = AtAwait (\<lambda>_. Some (Raises ValueError), (), 1) \<and>
   isinstance_Exception ValueError \<and>
   futures (run (take 7 scenario) WovAPICaller_init) 1 = PENDING \<and>
   futures (process_queue (run (take 7 scenario) WovAPICaller_init)) 1 = EXCEPTION ValueError \<and>
   futures (process_queue (run (take 7 scenario) WovAPICaller_init)) 0 = RESULT 1 \<and>
   futures (process_queue (run (take 7 scenario) WovAPICaller_init)) 2 = PENDING \<and>
   worker (process_queue (run (take 7 scenario) WovAPICaller_init)) = AtSleep 2 \<and>
   worker (process_queue (process_queue (process_queue (run (take 7 scenario) WovAPICaller_init))))
     = AtAwait (\<lambda>_. Some (Returns 3), (), 2) \<and>
   futures (process_queue (process_queue (process_queue (process_queue
      (run (take 7 scenario) WovAPICaller_init))))) 2 = RESULT 3"
proof -
  have w: "worker (run (take 7 scenario) WovAPICaller_init) = AtAwait (\<lambda>_. Some (Raises ValueError), (), 1)"
    by (simp add: scenario_def eval_defs)
  have q: "items (queue (run (take 7 scenario) WovAPICaller_init)) = [(\<lambda>_. Some (Returns 3), (), 2)]"
    by (simp add: scenario_def eval_defs)
  have c: "clock (run (take 7 scenario) WovAPICaller_init) = 1"
    by (simp add: scenario_def eval_defs)
  have f: "futures (run (take 7 scenario) WovAPICaller_init) 0 = RESULT 1"
    "futures (run (take 7 scenario) WovAPICaller_init) 2 = PENDING"
    by (simp_all add: scenario_def eval_defs)
  from captured_exception_resolves_own_future[where acts="take 7 scenario"
      and func="\<lambda>_. Some (Raises ValueError)" and args="()" and future=1 and e=ValueError] w q c f
  show ?thesis by (simp add: Let_def)
qed

text \<open>
  The claim as stated, for any failure, fails on a failure that is not an
  \<^verbatim>\<open>Exception\<close>: the operation of the first task raises \<^verbatim>\<open>asyncio.CancelledError\<close>.  The
  handler does not catch it, so the future of that task stays pending, the worker ends
  with the failure, and however often it is resumed the second task is never started.
\<close>

theorem uncaught_failure_ends_worker_counterexample:
  "worker (run poisoned WovAPICaller_init) = AtAwait (\<lambda>_. Some (Raises CancelledError), (), 0) \<and>
   futures (process_queue (run poisoned WovAPICaller_init)) 0 = PENDING \<and>
   worker (process_queue (run poisoned WovAPICaller_init)) = Ended CancelledError \<and>
   worker (run (poisoned @ [Worker, Worker, Tick 2, Worker, Worker]) WovAPICaller_init)
     = Ended CancelledError \<and>
   items (queue (run (poisoned @ [Worker, Worker, Tick 2, Worker, Worker]) WovAPICaller_init))
     = [(\<lambda>_. Some (Returns 3), (), 1)] \<and>
   started_ids (trace (run (poisoned @ [Worker, Worker, Tick 2, Worker, Worker]) WovAPICaller_init))
     = [0] \<and>
   futures (run (poisoned @ [Worker, Worker, Tick 2, Worker, Worker]) WovAPICaller_init) 1 = PENDING"
  by (simp add: poisoned_def eval_defs)

subsection \<open>Every future is resolved once, with its own outcome\<close>

lemma distinct_count_list_1: "distinct xs \<Longrightarrow> x \<in> set xs \<Longrightarrow> count_list xs x = 1"
  by (induction xs) auto

text \<open>
  Claim C3, as amended.  Whatever the interleaving of the submitters and the worker: no
  future is resolved more than once, and a future is resolved exactly when the worker has
  completed its task; a resolved future holds the outcome of the operation it was
  submitted with, and keeps it for ever; a future returned by \<^verbatim>\<open>add_to_queue\<close> is
  resolved or still owed by a worker that is alive; and a future still owed is resolved,
  exactly once, as soon as the worker has been resumed often enough, provided the worker
  has not ended and every operation queued up to and including its own completes by
  returning or by raising an \<^verbatim>\<open>Exception\<close>.
\<close>

theorem futures_resolve_once_with_own_outcome:
  "(let s = run acts WovAPICaller_init; s' = run acts' s in
      distinct (map fst (completions (trace s))) \<and>
      (futures s i \<noteq> PENDING \<longleftrightarrow> i \<in> set (map fst (completions (trace s)))) \<and>
      own_outcome (trace s) i (futures s i) \<and>
      (futures s i \<noteq> PENDING \<longrightarrow> futures s' i = futures s i) \<and>
      (i \<in> set (submitted_ids (trace s)) \<and> alive (worker s) \<longrightarrow>
         i \<in> set (pending_ids s) \<or> futures s i \<noteq> PENDING) \<and>
      (i \<in> set (pending_ids s) \<and> clear s i \<and> work s i \<le> count_list acts' Worker \<longrightarrow>
         futures s' i \<noteq> PENDING \<and> own_outcome (trace s') i (futures s' i) \<and>
         count_list (map fst (completions (trace s'))) i = 1))"
proof -
  define s where "s = run acts WovAPICaller_init"
  define s' where "s' = run acts' s"
  have inv: "invariant s" unfolding s_def by (rule invariant_reachable)
  then have inv': "invariant s'" unfolding s'_def by (rule invariant_run)
  from inv have 1: "distinct (map fst (completions (trace s)))"
    by (simp add: invariant_def completions_distinct)
  from inv have 2: "futures s i \<noteq> PENDING \<longleftrightarrow> i \<in> set (map fst (completions (trace s)))"
    by (simp add: invariant_def inv_own_def)
  from inv have 3: "own_outcome (trace s) i (futures s i)"
    by (simp add: invariant_def inv_own_def)
  from inv have 4: "futures s i \<noteq> PENDING \<longrightarrow> futures s' i = futures s i"
    unfolding s'_def by (simp add: resolved_stays)
  from inv have 5: "i \<in> set (submitted_ids (trace s)) \<and> alive (worker s) \<longrightarrow>
         i \<in> set (pending_ids s) \<or> futures s i \<noteq> PENDING"
    using submitted_accounted[of s i] by (simp add: invariant_def)
  have 6: "i \<in> set (pending_ids s) \<and> clear s i \<and> work s i \<le> count_list acts' Worker \<longrightarrow>
         futures s' i \<noteq> PENDING \<and> own_outcome (trace s') i (futures s' i) \<and>
         count_list (map fst (completions (trace s'))) i = 1"
  proof
    assume a: "i \<in> set (pending_ids s) \<and> clear s i \<and> work s i \<le> count_list acts' Worker"
    with inv have r: "futures s' i \<noteq> PENDING" unfolding s'_def by (simp add: eventually_resolved)
    from inv' have "distinct (map fst (completions (trace s')))"
      by (simp add: invariant_def completions_distinct)
    moreover from inv' r have "i \<in> set (map fst (completions (trace s')))"
      by (simp add: invariant_def inv_own_def)
    ultimately have "count_list (map fst (completions (trace s'))) i = 1"
      by (rule distinct_count_list_1)
    moreover from inv' have "own_outcome (trace s') i (futures s' i)"
      by (simp add: invariant_def inv_own_def)
    ultimately show "futures s' i \<noteq> PENDING \<and> own_outcome (trace s') i (futures s' i) \<and>
         count_list (map fst (completions (trace s'))) i = 1"
      using r by simp
  qed
  from 1 2 3 4 5 6 show ?thesis unfolding s'_def[symmetric] s_def[symmetric] Let_def by blast
qed

theorem futures_resolve_once_with_own_outcome_witness:
  "2 \<in> set (pending_ids (run (take 3 scenario) WovAPICaller_init)) \<and>
   clear (run (take 3 scenario) WovAPICaller_init) 2 \<and>
   work (run (take 3 scenario) WovAPICaller_init) 2 = 8 \<and>
   count_list (drop 3 scenario) Worker = 8 \<and>
   futures (run (drop 3 scenario) (run (take 3 scenario) WovAPICaller_init)) 2 = RESULT 3 \<and>
   count_list (map fst (completions (trace
      (run (drop 3 scenario) (run (take 3 scenario) WovAPICaller_init))))) 2 = 1 \<and>
   own_outcome (trace (run (drop 3 scenario) (run (take 3 scenario) WovAPICaller_init))) 2 (RESULT 3) \<and>
   futures (run (take 3 scenario) WovAPICaller_init) 2 = PENDING"
proof -
  have p: "pending_tasks (run (take 3 scenario) WovAPICaller_init) =
      [(\<lambda>_. Some (Returns 1), (), 0), (\<lambda>_. Some (Raises ValueError), (), 1),
       (\<lambda>_. Some (Returns 3), (), 2)]"
    "worker (run (take 3 scenario) WovAPICaller_init) = AtGet"
    by (simp_all add: scenario_def eval_defs pending_tasks_def inflight_def)
  then have a: "2 \<in> set (pending_ids (run (take 3 scenario) WovAPICaller_init))"
    "clear (run (take 3 scenario) WovAPICaller_init) 2"
    "work (run (take 3 scenario) WovAPICaller_init) 2 = 8"
    by (simp_all add: pending_ids_def clear_def work_def)
  have c: "count_list (drop 3 scenario) Worker = 8"
    by (simp add: scenario_def)
  have f: "futures (run (drop 3 scenario) (run (take 3 scenario) WovAPICaller_init)) 2 = RESULT 3"
    "futures (run (take 3 scenario) WovAPICaller_init) 2 = PENDING"
    by (simp_all add: scenario_def eval_defs)
  from futures_resolve_once_with_own_outcome[where acts="take 3 scenario"
      and acts'="drop 3 scenario" and i=2] a c f
  show ?thesis by (simp add: Let_def)
qed

text \<open>
  The claim as stated, for every set of submitted tasks, fails when an operation never
  completes, and when one raises a failure that is not an \<^verbatim>\<open>Exception\<close>: in both
  schedules the future of the second task, whose operation would return 3, is still
  pending after the worker has been resumed five times and ten time units have passed;
  the worker is stuck, and by \<open>stuck_never_resolves\<close> that future stays pending for ever.
\<close>

theorem stalled_queue_never_resolves_counterexample:
  "submitted_ids (trace (run stalled WovAPICaller_init)) = [0, 1] \<and>
   futures (run stalled WovAPICaller_init) 0 = PENDING \<and>
   futures (run stalled WovAPICaller_init) 1 = PENDING \<and>
   worker (run stalled WovAPICaller_init) = AtAwait (\<lambda>_. None, (), 0) \<and>
   stuck (worker (run stalled WovAPICaller_init)) \<and>
   submitted_ids (trace (run aborted WovAPICaller_init)) = [0, 1] \<and>
   futures (run aborted WovAPICaller_init) 0 = PENDING \<and>
   futures (run aborted WovAPICaller_init) 1 = PENDING \<and>
   worker (run aborted WovAPICaller_init) = Ended SystemExit \<and>
   stuck (worker (run aborted WovAPICaller_init))"
  by (simp add: stalled_def aborted_def eval_defs)

subsection \<open>Every task is completed, in the order of submission\<close>

lemma upto_future_set: "set (upto_future i ts) \<subseteq> set ts"
  by (induction ts) auto

lemma upto_future_length: "length (upto_future i ts) \<le> length ts"
  by (induction ts) auto

lemma submitted_ids_step:
  assumes "invariant s"
  shows "prefix (submitted_ids (trace s)) (submitted_ids (trace (step a s)))"
proof (cases a)
  case (Submit func args)
  from assms have m: "maxsize (queue s) = 0" by (simp add: invariant_def inv_queue_def)
  show ?thesis unfolding Submit step.simps by (simp add: submit_effect[OF m])
next
  case Worker
  from assms have i: "inv_queue s" "inv_futures s" by (simp_all add: invariant_def)
  from i show ?thesis
    by (cases s rule: process_queue_cases) (use Worker in auto)
next
  case (Tick d)
  then show ?thesis by simp
qed

lemma submitted_ids_run:
  assumes "invariant s"
  shows "prefix (submitted_ids (trace s)) (submitted_ids (trace (run acts s)))"
  using assms
proof (induction acts arbitrary: s)
  case Nil
  then show ?case by (simp add: run_Nil)
next
  case (Cons a acts)
  from Cons.prems have "invariant (step a s)" by (rule invariant_step)
  then have "prefix (submitted_ids (trace (step a s))) (submitted_ids (trace (run acts (step a s))))"
    by (rule Cons.IH)
  then obtain zs' where 2: "submitted_ids (trace (run acts (step a s)))
      = submitted_ids (trace (step a s)) @ zs'"
    by (rule prefixE)
  from submitted_ids_step[OF Cons.prems, of a]
  obtain zs where 1: "submitted_ids (trace (step a s)) = submitted_ids (trace s) @ zs"
    by (rule prefixE)
  have "submitted_ids (trace (run (a # acts) s)) = submitted_ids (trace s) @ (zs @ zs')"
    unfolding run_Cons 2 1 by simp
  then show ?case by (rule prefixI)
qed

lemma prefix_covering:
  assumes "prefix xs zs" "prefix ys zs" "set xs \<subseteq> set ys" "distinct zs"
  shows "prefix xs ys"
proof -
  from assms(1) obtain ws where "zs = xs @ ws" by (rule prefixE)
  with assms(4) have "distinct xs" by simp
  then have "length xs = card (set xs)" by (simp add: distinct_card)
  also from assms(3) have "\<dots> \<le> card (set ys)" by (simp add: card_mono)
  also have "\<dots> \<le> length ys" by (rule card_length)
  finally have "length xs \<le> length ys" .
  with assms(1,2) show ?thesis by (rule prefix_length_prefix)
qed

lemma all_completed:
  assumes "invariant s" "alive (worker s)" "list_all completes (pending_tasks s)"
    "3 * length (pending_tasks s) \<le> count_list acts Worker"
  shows "prefix (submitted_ids (trace s)) (map fst (completions (trace (run acts s))))"
proof -
  have inv': "invariant (run acts s)" using assms(1) by (rule invariant_run)
  have sub: "set (submitted_ids (trace s)) \<subseteq> set (map fst (completions (trace (run acts s))))"
  proof
    fix i
    assume "i \<in> set (submitted_ids (trace s))"
    with assms(1,2) have "i \<in> set (pending_ids s) \<or> futures s i \<noteq> PENDING"
      by (simp add: invariant_def submitted_accounted)
    then have "futures (run acts s) i \<noteq> PENDING"
    proof
      assume p: "i \<in> set (pending_ids s)"
      from assms(2,3) upto_future_set[of i "pending_tasks s"] have c: "clear s i"
        by (auto simp: clear_def list_all_iff)
      have "work s i \<le> 3 * length (upto_future i (pending_tasks s))"
        by (simp add: work_def)
      also have "\<dots> \<le> 3 * length (pending_tasks s)"
        using upto_future_length[of i "pending_tasks s"] by simp
      finally have "work s i \<le> count_list acts Worker" using assms(4) by simp
      with assms(1) p c show ?thesis by (rule eventually_resolved)
    next
      assume "futures s i \<noteq> PENDING"
      with assms(1) show ?thesis by (simp add: resolved_stays)
    qed
    with inv' show "i \<in> set (map fst (completions (trace (run acts s))))"
      by (simp add: invariant_def inv_own_def)
  qed
  from inv' have "sorted_wrt (<) (submitted_ids (trace (run acts s)))"
    by (simp add: invariant_def inv_order_def)
  then have d: "distinct (submitted_ids (trace (run acts s)))"
    by (simp add: strict_sorted_iff)
  from inv' have p: "prefix (map fst (completions (trace (run acts s))))
      (submitted_ids (trace (run acts s)))"
    by (simp add: invariant_def prefix_order)
  from submitted_ids_run[OF assms(1)] p sub d show ?thesis by (rule prefix_covering)
qed

subsection \<open>Order and spacing of completions, and the cooldown\<close>

text \<open>
  Claim C1, as amended.  Whatever the schedule of submissions, worker resumptions and
  lapses of time: the futures are resolved in the order \<^verbatim>\<open>add_to_queue\<close> returned them
  (the completions are an initial segment of the submissions); two consecutive completions
  are at least one time unit apart; and no operation is started less than one time unit
  after the operation before it has ended.  As long as the worker has not ended and every
  operation still owed returns or raises an \<^verbatim>\<open>Exception\<close>, all the tasks submitted so far
  are completed, in the order of their submission, once the worker has been resumed three
  times for each of them.  When an operation returns, or raises an \<^verbatim>\<open>Exception\<close>, the
  worker resolves the future and then sleeps for one time unit, in both cases alike, before
  it returns to the queue.  When an operation raises a failure that is not an
  \<^verbatim>\<open>Exception\<close>, the worker ends there, with no cooldown, and starts no operation again.
\<close>

theorem completions_in_order_and_spaced:
  "(let s = run acts WovAPICaller_init; cs = completions (trace s) in
      prefix (map fst cs) (submitted_ids (trace s)) \<and>
      (\<forall>k. Suc k < length cs \<longrightarrow> snd (cs ! k) + 1 \<le> snd (cs ! Suc k)) \<and>
      rate_limited (trace s) \<and>
      (alive (worker s) \<and> list_all completes (pending_tasks s) \<and>
       3 * length (pending_tasks s) \<le> count_list acts' Worker \<longrightarrow>
         prefix (submitted_ids (trace s)) (map fst (completions (trace (run acts' s))))) \<and>
      (\<forall>func args future c.
          worker s = AtAwait (func, args, future) \<and> func args = Some c \<longrightarrow>
          (if catchable c then
             worker (process_queue s) = AtSleep (clock s + 1) \<and>
             completions (trace (process_queue s)) = cs @ [(future, clock s)]
           else
             stuck (worker (process_queue s)) \<and>
             (\<forall>due. worker (process_queue s) \<noteq> AtSleep due) \<and>
             completions (trace (run acts' (process_queue s))) = cs \<and>
             started_ids (trace (run acts' (process_queue s))) = started_ids (trace s))) \<and>
      (\<forall>due. worker s = AtSleep due \<longrightarrow>
          worker (process_queue s) = AtGet \<and> due \<le> clock (process_queue s)))"
proof -
  define s where "s = run acts WovAPICaller_init"
  have inv: "invariant s" unfolding s_def by (rule invariant_reachable)
  then have rl: "rate_limited (trace s)" by (simp add: invariant_def inv_time_def)
  from inv have 1: "prefix (map fst (completions (trace s))) (submitted_ids (trace s))"
    by (simp add: invariant_def prefix_order)
  from rl have 2: "\<forall>k. Suc k < length (completions (trace s)) \<longrightarrow>
      snd (completions (trace s) ! k) + 1 \<le> snd (completions (trace s) ! Suc k)"
    by (simp add: rate_limited_spaced)
  from inv have 3: "alive (worker s) \<and> list_all completes (pending_tasks s) \<and>
       3 * length (pending_tasks s) \<le> count_list acts' Worker \<longrightarrow>
         prefix (submitted_ids (trace s)) (map fst (completions (trace (run acts' s))))"
    by (simp add: all_completed)
  have 4: "\<forall>func args future c.
          worker s = AtAwait (func, args, future) \<and> func args = Some c \<longrightarrow>
          (if catchable c then
             worker (process_queue s) = AtSleep (clock s + 1) \<and>
             completions (trace (process_queue s)) = completions (trace s) @ [(future, clock s)]
           else
             stuck (worker (process_queue s)) \<and>
             (\<forall>due. worker (process_queue s) \<noteq> AtSleep due) \<and>
             completions (trace (run acts' (process_queue s))) = completions (trace s) \<and>
             started_ids (trace (run acts' (process_queue s))) = started_ids (trace s))"
  proof (intro allI impI)
    fix func args future c
    assume a: "worker s = AtAwait (func, args, future) \<and> func args = Some c"
    show "if catchable c then
             worker (process_queue s) = AtSleep (clock s + 1) \<and>
             completions (trace (process_queue s)) = completions (trace s) @ [(future, clock s)]
           else
             stuck (worker (process_queue s)) \<and>
             (\<forall>due. worker (process_queue s) \<noteq> AtSleep due) \<and>
             completions (trace (run acts' (process_queue s))) = completions (trace s) \<and>
             started_ids (trace (run acts' (process_queue s))) = started_ids (trace s)"
    proof (cases "catchable c")
      case True
      with inv a show ?thesis by (simp add: completes_then_sleeps)
    next
      case False
      from inv have i: "inv_queue s" "inv_futures s" by (simp_all add: invariant_def)
      from inv a False have st: "stuck (worker (process_queue s))"
        and sid: "started_ids (trace (run acts' (process_queue s))) = started_ids (trace s)"
        by (simp_all add: escapes_then_ends)
      from st have ns: "\<forall>due. worker (process_queue s) \<noteq> AtSleep due" by auto
      from i have "completions (trace (process_queue s)) = completions (trace s)"
        by (cases s rule: process_queue_cases) (use a False in auto)
      with stuck_is_final[OF st, of acts']
      have "completions (trace (run acts' (process_queue s))) = completions (trace s)" by simp
      with False st ns sid show ?thesis by simp
    qed
  qed
  have 5: "\<forall>due. worker s = AtSleep due \<longrightarrow>
          worker (process_queue s) = AtGet \<and> due \<le> clock (process_queue s)"
    by (simp add: process_queue_def)
  from 1 2 rl 3 4 5 show ?thesis unfolding s_def Let_def by blast
qed

theorem completions_in_order_and_spaced_witness:
  "submitted_ids (trace (run (take 3 scenario) WovAPICaller_init)) = [0, 1, 2] \<and>
   alive (worker (run (take 3 scenario) WovAPICaller_init)) \<and>
   list_all completes (pending_tasks (run (take 3 scenario) WovAPICaller_init)) \<and>
   3 * length (pending_tasks (run (take 3 scenario) WovAPICaller_init))
     \<le> count_list (drop 3 scenario @ [Worker]) Worker \<and>
   map fst (completions (trace (run (drop 3 scenario @ [Worker])
      (run (take 3 scenario) WovAPICaller_init)))) = [0, 1, 2] \<and>
   worker (run (take 7 scenario) WovAPICaller_init) = AtAwait (\<lambda>_. Some (Raises ValueError), (), 1) \<and>
   catchable (Raises ValueError :: int completion) \<and>
   worker (process_queue (run (take 7 scenario) WovAPICaller_init)) = AtSleep 2 \<and>
   completions (trace (process_queue (run (take 7 scenario) WovAPICaller_init))) = [(0, 0), (1, 1)] \<and>
   completions (trace (run scenario WovAPICaller_init)) = [(0, 0), (1, 1), (2, 2)] \<and>
   worker (run scenario WovAPICaller_init) = AtSleep 3 \<and>
   worker (process_queue (run scenario WovAPICaller_init)) = AtGet \<and>
   3 \<le> clock (process_queue (run scenario WovAPICaller_init)) \<and>
   prefix (map fst (completions (trace (run scenario WovAPICaller_init))))
     (submitted_ids (trace (run scenario WovAPICaller_init))) \<and>
   snd (completions (trace (run scenario WovAPICaller_init)) ! 0) + 1
     \<le> snd (completions (trace (run scenario WovAPICaller_init)) ! 1) \<and>
   snd (completions (trace (run scenario WovAPICaller_init)) ! 1) + 1
     \<le> snd (completions (trace (run scenario WovAPICaller_init)) ! 2) \<and>
   rate_limited (trace (run scenario WovAPICaller_init))"
proof -
  have p: "pending_tasks (run (take 3 scenario) WovAPICaller_init) =
      [(\<lambda>_. Some (Returns 1), (), 0), (\<lambda>_. Some (Raises ValueError), (), 1),
       (\<lambda>_. Some (Returns 3), (), 2)]"
    "worker (run (take 3 scenario) WovAPICaller_init) = AtGet"
    "submitted_ids (trace (run (take 3 scenario) WovAPICaller_init)) = [0, 1, 2]"
    by (simp_all add: scenario_def eval_defs pending_tasks_def inflight_def)
  have n: "count_list (drop 3 scenario @ [Worker]) Worker = 9"
    by (simp add: scenario_def)
  have m: "map fst (completions (trace (run (drop 3 scenario @ [Worker])
      (run (take 3 scenario) WovAPICaller_init)))) = [0, 1, 2]"
    by (simp add: scenario_def eval_defs)
  from p n have a: "alive (worker (run (take 3 scenario) WovAPICaller_init))"
    "list_all completes (pending_tasks (run (take 3 scenario) WovAPICaller_init))"
    "3 * length (pending_tasks (run (take 3 scenario) WovAPICaller_init))
       \<le> count_list (drop 3 scenario @ [Worker]) Worker"
    by simp_all
  from completions_in_order_and_spaced[where acts="take 3 scenario"
      and acts'="drop 3 scenario @ [Worker]"] a
  have "prefix (submitted_ids (trace (run (take 3 scenario) WovAPICaller_init)))
      (map fst (completions (trace (run (drop 3 scenario @ [Worker])
         (run (take 3 scenario) WovAPICaller_init)))))"
    unfolding Let_def by blast
  have w7: "worker (run (take 7 scenario) WovAPICaller_init) = AtAwait (\<lambda>_. Some (Raises ValueError), (), 1)"
    "clock (run (take 7 scenario) WovAPICaller_init) = 1"
    "completions (trace (run (take 7 scenario) WovAPICaller_init)) = [(0, 0)]"
    by (simp_all add: scenario_def eval_defs)
  have c: "catchable (Raises ValueError :: int completion)" by simp
  from completions_in_order_and_spaced[where acts="take 7 scenario" and acts'="[]"] w7(1) c
  have "worker (process_queue (run (take 7 scenario) WovAPICaller_init))
          = AtSleep (clock (run (take 7 scenario) WovAPICaller_init) + 1) \<and>
        completions (trace (process_queue (run (take 7 scenario) WovAPICaller_init)))
          = completions (trace (run (take 7 scenario) WovAPICaller_init))
              @ [(1, clock (run (take 7 scenario) WovAPICaller_init))]"
    unfolding Let_def by (metis (full_types))
  with w7 have s7: "worker (process_queue (run (take 7 scenario) WovAPICaller_init)) = AtSleep 2"
    "completions (trace (process_queue (run (take 7 scenario) WovAPICaller_init))) = [(0, 0), (1, 1)]"
    by simp_all
  have e: "trace (run scenario WovAPICaller_init) =
     [Resolved 2 2, Started 2 2, Resolved 1 1, Started 1 1, Resolved 0 0, Started 0 0,
      Submitted 2 (\<lambda>_. Some (Returns 3)) () 0, Submitted 1 (\<lambda>_. Some (Raises ValueError)) () 0,
      Submitted 0 (\<lambda>_. Some (Returns 1)) () 0]"
    by (simp add: scenario_def eval_defs)
  have w: "worker (run scenario WovAPICaller_init) = AtSleep 3"
    by (simp add: scenario_def eval_defs)
  from completions_in_order_and_spaced[where acts=scenario and acts'="[]"] e w
  have l: "worker (process_queue (run scenario WovAPICaller_init)) = AtGet \<and>
     3 \<le> clock (process_queue (run scenario WovAPICaller_init)) \<and>
     prefix (map fst (completions (trace (run scenario WovAPICaller_init))))
       (submitted_ids (trace (run scenario WovAPICaller_init))) \<and>
     rate_limited (trace (run scenario WovAPICaller_init))"
    by (simp add: Let_def cooled_def rested_def)
  from e have cs: "completions (trace (run scenario WovAPICaller_init)) = [(0, 0), (1, 1), (2, 2)]"
    by simp
  from p a m w7(1) c s7 cs w l show ?thesis by simp
qed

text \<open>
  The claim as stated, that the tasks are completed and the cooldown is performed after
  every task whether it succeeded or failed, fails on an operation that raises
  \<^verbatim>\<open>asyncio.CancelledError\<close>: the handler \<^verbatim>\<open>except Exception\<close> does not catch it, so the
  lines after the \<^verbatim>\<open>try\<close> statement, \<^verbatim>\<open>task_done\<close> and the sleep, are not reached.  Three
  tasks are submitted; the first is completed; when the operation of the second has failed
  the worker has ended and is not in its cooldown sleep, and whatever happens afterwards
  the first completion stays the only one: the second and the third task are never
  completed.
\<close>

theorem cancelled_task_skips_cooldown_counterexample:
  "submitted_ids (trace (run cut_short WovAPICaller_init)) = [0, 1, 2] \<and>
   worker (run (take 7 cut_short) WovAPICaller_init)
     = AtAwait (\<lambda>_. Some (Raises CancelledError), (), 1) \<and>
   worker (run cut_short WovAPICaller_init) = Ended CancelledError \<and>
   (\<forall>due. worker (run cut_short WovAPICaller_init) \<noteq> AtSleep due) \<and>
   (\<forall>later. worker (run later (run cut_short WovAPICaller_init)) = Ended CancelledError \<and>
      completions (trace (run later (run cut_short WovAPICaller_init))) = [(0, 0)] \<and>
      started_ids (trace (run later (run cut_short WovAPICaller_init))) = [0, 1])"
proof -
  have w: "worker (run cut_short WovAPICaller_init) = Ended CancelledError"
    by (simp add: cut_short_def eval_defs)
  have c: "completions (trace (run cut_short WovAPICaller_init)) = [(0, 0)]"
    "started_ids (trace (run cut_short WovAPICaller_init)) = [0, 1]"
    "submitted_ids (trace (run cut_short WovAPICaller_init)) = [0, 1, 2]"
    by (simp_all add: cut_short_def eval_defs)
  have w7: "worker (run (take 7 cut_short) WovAPICaller_init)
     = AtAwait (\<lambda>_. Some (Raises CancelledError), (), 1)"
    by (simp add: cut_short_def eval_defs)
  from w have "stuck (worker (run cut_short WovAPICaller_init))" by simp
  from stuck_is_final[OF this] w c
  have "\<forall>later. worker (run later (run cut_short WovAPICaller_init)) = Ended CancelledError \<and>
      completions (trace (run later (run cut_short WovAPICaller_init))) = [(0, 0)] \<and>
      started_ids (trace (run later (run cut_short WovAPICaller_init))) = [0, 1]"
    by simp
  with w c w7 show ?thesis by simp
qed

section \<open>Proofs: the API wrappers\<close>

subsection \<open>The wrappers that check the status\<close>

declare str_nat.simps [simp del]

lemmas http_defs = toy_env_def toy_loads_def c0_def w0_def world_init_def WovApiCall_init_def
  str_getenv_def request_def respond_def logger_error_def get_user_by_id_def get_user_by_name_def
  get_clan_by_id_def get_clan_by_name_def get_clan_members_def get_shop_def
  get_user_performance_def str_int_def str_nat.simps

lemma percent_format_Nil: "percent_format msg [] = msg"
  by (cases msg) simp_all

lemma getMessage_plain: "getMessage (msg, []) = msg"
  by (simp add: percent_format_Nil)

lemma sublist_at_end: "sublist k (a @ s @ b @ k)"
  using sublist_append_leftI[of k "a @ s @ b"] by simp

lemma respond_outcome:
  "(let (res, w') = respond r message w in
      cls w' = cls w \<and> heap w' = heap w \<and>
      (case r of
         Inl e \<Rightarrow> res = Inl e \<and> logged w' = logged w
       | Inr rr \<Rightarrow>
           if status rr = 200 then
             (case json rr of
                Inl e \<Rightarrow> res = Inl e \<and> logged w' = logged w
              | Inr payload \<Rightarrow> res = Inr (Some payload) \<and> logged w' = logged w)
           else res = Inr None \<and> logged w' = logged w @ [message (status rr)]))"
  by (simp add: respond_def logger_error_def split: sum.splits)

lemma outcome_from_respond:
  assumes inv: "invoke env c call w = respond (answer env c call w) message (w\<lparr>sent := s\<rparr>)"
    and st: "\<And>st. sublist (str_int st) (getMessage (message st))"
    and key: "\<And>st k. identifying_key call = Some k \<Longrightarrow> sublist k (getMessage (message st))"
  shows "(let (res, w') = invoke env c call w in
     cls w' = cls w \<and> heap w' = heap w \<and>
     (case answer env c call w of
        Inl e \<Rightarrow> res = Inl e \<and> logged w' = logged w
      | Inr r \<Rightarrow>
          if status r = 200 then
            (case json r of
               Inl e \<Rightarrow> res = Inl e \<and> logged w' = logged w
             | Inr payload \<Rightarrow> res = Inr (Some payload) \<and> logged w' = logged w)
          else
            res = Inr None \<and>
            (\<exists>entry. logged w' = logged w @ [entry] \<and>
               sublist (str_int (status r)) (getMessage entry) \<and>
               (case identifying_key call of None \<Rightarrow> True | Some k \<Rightarrow> sublist k (getMessage entry)))))"
proof -
  obtain res w' where r: "respond (answer env c call w) message (w\<lparr>sent := s\<rparr>) = (res, w')"
    by (cases "respond (answer env c call w) message (w\<lparr>sent := s\<rparr>)")
  from respond_outcome[of "answer env c call w" message "w\<lparr>sent := s\<rparr>"] r
  have o: "cls w' = cls w \<and> heap w' = heap w \<and>
      (case answer env c call w of
         Inl e \<Rightarrow> res = Inl e \<and> logged w' = logged w
       | Inr rr \<Rightarrow>
           if status rr = 200 then
             (case json rr of
                Inl e \<Rightarrow> res = Inl e \<and> logged w' = logged w
              | Inr payload \<Rightarrow> res = Inr (Some payload) \<and> logged w' = logged w)
           else res = Inr None \<and> logged w' = logged w @ [message (status rr)])"
    by (auto split: sum.splits if_splits)
  have k: "case identifying_key call of None \<Rightarrow> True | Some k \<Rightarrow> sublist k (getMessage (message x))" for x
    using key by (cases "identifying_key call") simp_all
  from o st k show ?thesis unfolding inv r
    by (auto split: sum.splits simp del: getMessage.simps split_paired_Ex)
qed

text \<open>
  Claim C7, as amended.  Each wrapper (the six Wolvesville methods and
  \<^verbatim>\<open>get_user_performance\<close>) ends in one of three ways, and never touches the class
  attributes or the headers.  When the response has status 200 and its body decodes, it
  returns the decoded payload and logs nothing.  When the response has any other status it
  returns \<^verbatim>\<open>None\<close> and logs one error whose text contains the status code and, for the
  wrappers that are called with a key, that key (\<^verbatim>\<open>get_shop\<close> has none).  When the
  request itself fails, or the body of a response with status 200 fails to decode, the
  failure is raised to the caller and nothing is logged.
\<close>

theorem wrapper_returns_payload_or_logs:
  "(let (res, w') = invoke env c call w in
     cls w' = cls w \<and> heap w' = heap w \<and>
     (case answer env c call w of
        Inl e \<Rightarrow> res = Inl e \<and> logged w' = logged w
      | Inr r \<Rightarrow>
          if status r = 200 then
            (case json r of
               Inl e \<Rightarrow> res = Inl e \<and> logged w' = logged w
             | Inr payload \<Rightarrow> res = Inr (Some payload) \<and> logged w' = logged w)
          else
            res = Inr None \<and>
            (\<exists>entry. logged w' = logged w @ [entry] \<and>
               sublist (str_int (status r)) (getMessage entry) \<and>
               (case identifying_key call of None \<Rightarrow> True | Some k \<Rightarrow> sublist k (getMessage entry)))))"
proof (cases call)
  case (GetUserById user_id)
  show ?thesis unfolding GetUserById
  proof (rule outcome_from_respond)
    show "invoke env c (GetUserById user_id) w =
        respond (answer env c (GetUserById user_id) w)
          (\<lambda>st. (''Wov User API call failed with status code '' @ str_int st @ ''. User ID: ''
                     @ str_int user_id, []))
          (w\<lparr>sent := sent w @ [(api_url c @ ''players/'' @ str_int user_id, wov_headers c)]\<rparr>)"
      by (simp add: get_user_by_id_def request_def)
  qed (simp_all only: getMessage_plain identifying_key.simps option.inject sublist_appendI sublist_at_end)
next
  case (GetUserByName username)
  show ?thesis unfolding GetUserByName
  proof (rule outcome_from_respond)
    show "invoke env c (GetUserByName username) w =
        respond (answer env c (GetUserByName username) w)
          (\<lambda>st. (''Wov User API call failed with status code '' @ str_int st @ ''. Username: ''
                     @ username, []))
          (w\<lparr>sent := sent w @ [(api_url c @ ''players/search?username='' @ username, wov_headers c)]\<rparr>)"
      by (simp add: get_user_by_name_def request_def)
  qed (simp_all only: getMessage_plain identifying_key.simps option.inject sublist_appendI sublist_at_end)
next
  case (GetClanById clan_id)
  show ?thesis unfolding GetClanById
  proof (rule outcome_from_respond)
    show "invoke env c (GetClanById clan_id) w =
        respond (answer env c (GetClanById clan_id) w)
          (\<lambda>st. (''Wov Clan API call failed with status code '' @ str_int st @ ''. Clan ID: ''
                     @ str_int clan_id, []))
          (w\<lparr>sent := sent w @ [(api_url c @ ''clans/'' @ str_int clan_id @ ''/info'', wov_headers c)]\<rparr>)"
      by (simp add: get_clan_by_id_def request_def)
  qed (simp_all only: getMessage_plain identifying_key.simps option.inject sublist_appendI sublist_at_end)
next
  case (GetClanByName clan_name)
  show ?thesis unfolding GetClanByName
  proof (rule outcome_from_respond)
    show "invoke env c (GetClanByName clan_name) w =
        respond (answer env c (GetClanByName clan_name) w)
          (\<lambda>st. (''Wov Clan API call failed with status code '' @ str_int st @ ''. Clan name: ''
                     @ clan_name, []))
          (w\<lparr>sent := sent w @ [(api_url c @ ''clans/search?name='' @ clan_name, wov_headers c)]\<rparr>)"
      by (simp add: get_clan_by_name_def request_def)
  qed (simp_all only: getMessage_plain identifying_key.simps option.inject sublist_appendI sublist_at_end)
next
  case (GetClanMembers clan_id)
  show ?thesis unfolding GetClanMembers
  proof (rule outcome_from_respond)
    show "invoke env c (GetClanMembers clan_id) w =
        respond (answer env c (GetClanMembers clan_id) w)
          (\<lambda>st. (''Wov Clan Members API call failed with status code '' @ str_int st
                     @ ''. Clan ID: '' @ str_int clan_id, []))
          (w\<lparr>sent := sent w @ [(api_url c @ ''clans/'' @ str_int clan_id @ ''/members'', wov_headers c)]\<rparr>)"
      by (simp add: get_clan_members_def request_def)
  qed (simp_all only: getMessage_plain identifying_key.simps option.inject sublist_appendI sublist_at_end)
next
  case GetShop
  have m: "getMessage (''Wov Shop API call failed with status code %s.'', [s])
      = ''Wov Shop API call failed with status code '' @ s @ ''.''" for s
    by simp
  show ?thesis unfolding GetShop
  proof (rule outcome_from_respond)
    show "invoke env c GetShop w =
        respond (answer env c GetShop w)
          (\<lambda>st. (''Wov Shop API call failed with status code %s.'', [str_int st]))
          (w\<lparr>sent := sent w @ [(api_url c @ ''shop/activeOffers'', wov_headers c)]\<rparr>)"
      by (simp add: get_shop_def request_def)
    show "sublist (str_int st) (getMessage (''Wov Shop API call failed with status code %s.'', [str_int st]))" for st
      unfolding m by (rule sublist_appendI)
  qed simp
next
  case (GetUserPerformance username perf_type)
  show ?thesis unfolding GetUserPerformance
  proof (rule outcome_from_respond)
    show "invoke env c (GetUserPerformance username perf_type) w =
        respond (answer env c (GetUserPerformance username perf_type) w)
          (\<lambda>st. (''Lichess User Performance API call failed with status code '' @ str_int st
                     @ ''. Username: '' @ username, []))
          (w\<lparr>sent := sent w @ [(lichess_url (cls w) @ ''user/'' @ username @ ''/perf/'' @ perf_type,
                                heap w (headers (cls w)))]\<rparr>)"
      by (simp add: get_user_performance_def request_def)
  qed (simp_all only: getMessage_plain identifying_key.simps option.inject sublist_appendI sublist_at_end)
qed

theorem wrapper_returns_payload_or_logs_witness:
  "invoke not_found c0 (GetUserById 7) w0 =
     (Inr None,
      w0\<lparr>sent := [(''https://api.wolvesville.com/players/7'', [''Authorization'' \<mapsto> ''Bot wov-token''])],
         logged := [(''Wov User API call failed with status code 404. User ID: 7'', [])]\<rparr>) \<and>
   sublist ''404'' (getMessage (''Wov User API call failed with status code 404. User ID: 7'', [])) \<and>
   fst (invoke found c0 (GetUserPerformance ''bob'' ''blitz'') w0) = Inr (Some 42) \<and>
   logged (snd (invoke found c0 (GetUserPerformance ''bob'' ''blitz'') w0)) = [] \<and>
   fst (invoke not_found c0 GetShop w0) = Inr None \<and>
   map getMessage (logged (snd (invoke not_found c0 GetShop w0)))
     = [''Wov Shop API call failed with status code 404.'']"
proof -
  have a: "answer not_found c0 (GetUserById 7) w0
      = Inr \<lparr>status = 404, json = Inl JSONDecodeError, body = []\<rparr>"
    by (simp add: not_found_def toy_env_def)
  have e: "invoke not_found c0 (GetUserById 7) w0 =
     (Inr None,
      w0\<lparr>sent := [(''https://api.wolvesville.com/players/7'', [''Authorization'' \<mapsto> ''Bot wov-token''])],
         logged := [(''Wov User API call failed with status code 404. User ID: 7'', [])]\<rparr>)"
    by (simp add: not_found_def http_defs)
  have s: "str_int 404 = ''404''"
    by (simp add: str_int_def str_nat.simps)
  have f: "invoke found c0 (GetUserPerformance ''bob'' ''blitz'') w0 =
     (Inr (Some 42),
      w0\<lparr>sent := [(''https://lichess.org/api/user/bob/perf/blitz'', [''Authorization'' \<mapsto> ''Bearer li-token''])]\<rparr>)"
    by (simp add: found_def http_defs)
  have g: "invoke not_found c0 GetShop w0 =
     (Inr None,
      w0\<lparr>sent := [(''https://api.wolvesville.com/shop/activeOffers'', [''Authorization'' \<mapsto> ''Bot wov-token''])],
         logged := [(''Wov Shop API call failed with status code %s.'', [''404''])]\<rparr>)"
    by (simp add: not_found_def http_defs)
  have l: "logged w0 = []" by (simp add: w0_def world_init_def)
  from wrapper_returns_payload_or_logs[of not_found c0 "GetUserById 7" w0] a e s l
  have "sublist ''404'' (getMessage (''Wov User API call failed with status code 404. User ID: 7'', []))"
    by simp
  with e f g l show ?thesis by simp
qed

text \<open>
  The claim as stated, for any failure, fails on the failures the wrappers do not handle:
  with no connection \<^verbatim>\<open>requests.get\<close> raises and \<^verbatim>\<open>get_user_performance\<close> raises with
  it; on a response 200 whose body is not JSON \<^verbatim>\<open>response.json()\<close> raises and
  \<^verbatim>\<open>get_user_by_id\<close> raises with it.  Neither returns a payload or \<^verbatim>\<open>None\<close>, and
  neither logs.
\<close>

theorem wrapper_raises_counterexample:
  "fst (invoke offline c0 (GetUserPerformance ''bob'' ''blitz'') w0) = Inl ClientError \<and>
   logged (snd (invoke offline c0 (GetUserPerformance ''bob'' ''blitz'') w0)) = [] \<and>
   fst (invoke not_json c0 (GetUserById 7) w0) = Inl JSONDecodeError \<and>
   logged (snd (invoke not_json c0 (GetUserById 7) w0)) = []"
  by (simp add: offline_def not_json_def http_defs)

subsection \<open>Iterating an export\<close>

lemma except_Exception_eq:
  "except_Exception env username e w =
     ((case propagated (Some e) of None \<Rightarrow> StopIteration | Some x \<Rightarrow> Propagates x), Finished,
      w\<lparr>logged := logged w @ error_lines env username (Some e)\<rparr>)"
  by (simp add: except_Exception_def propagated_def error_lines_def logger_error_def)

lemma iterate_Suspended:
  "length lines < n \<Longrightarrow>
   iterate n env (Suspended username lines) w =
     Some (parsed_prefix (json_loads env) lines,
           propagated (first_failure (json_loads env) lines), Finished,
           w\<lparr>logged := logged w @ error_lines env username (first_failure (json_loads env) lines)\<rparr>)"
proof (induction lines arbitrary: n)
  case Nil
  then obtain m where n: "n = Suc m" by (cases n) auto
  show ?case unfolding n by (simp add: gen_next_def propagated_def error_lines_def)
next
  case (Cons line rest)
  then obtain m where n: "n = Suc m" by (cases n) auto
  show ?case
  proof (cases "strip line = []")
    case True
    have "gen_next env (Suspended username (line # rest)) w = gen_next env (Suspended username rest) w"
      using True by (simp add: gen_next_def)
    then have "iterate n env (Suspended username (line # rest)) w
        = iterate n env (Suspended username rest) w"
      unfolding n by simp
    moreover from Cons.prems have "length rest < n" by simp
    ultimately show ?thesis using Cons.IH[of n] True by simp
  next
    case False
    show ?thesis
    proof (cases "json_loads env line")
      case (Inl e)
      with False show ?thesis unfolding n
        by (cases "isinstance_Exception e")
           (simp_all add: gen_next_def except_Exception_def propagated_def error_lines_def
              logger_error_def)
    next
      case (Inr obj)
      from Cons.prems n have "length rest < m" by simp
      from Cons.IH[OF this] Inr False show ?thesis unfolding n
        by (simp add: gen_next_def)
    qed
  qed
qed

lemma start_body_frame:
  "cls (snd (snd (start_body env username kwargs w))) = cls w"
  "heap (snd (snd (start_body env username kwargs w))) = (heap w)(headers (cls w) := accept_headers w)"
  "sent (snd (snd (start_body env username kwargs w)))
     = sent w @ [(lichess_url (cls w) @ ''games/user/'' @ username, accept_headers w)]"
proof -
  have f: "cls (snd (snd (for_loop env username lines v))) = cls v \<and>
           heap (snd (snd (for_loop env username lines v))) = heap v \<and>
           sent (snd (snd (for_loop env username lines v))) = sent v" for lines v
    by (induction lines) (simp_all add: except_Exception_def split: sum.splits)
  show "cls (snd (snd (start_body env username kwargs w))) = cls w"
    by (simp add: start_body_def Let_def f except_Exception_def split: sum.splits option.splits)
  show "heap (snd (snd (start_body env username kwargs w))) = (heap w)(headers (cls w) := accept_headers w)"
    by (simp add: start_body_def Let_def f except_Exception_def accept_headers_def
        split: sum.splits option.splits)
  show "sent (snd (snd (start_body env username kwargs w)))
     = sent w @ [(lichess_url (cls w) @ ''games/user/'' @ username, accept_headers w)]"
    by (simp add: start_body_def Let_def f except_Exception_def accept_headers_def
        split: sum.splits option.splits)
qed

lemma for_loop_frame:
  "cls (snd (snd (for_loop env username lines v))) = cls v"
  "heap (snd (snd (for_loop env username lines v))) = heap v"
  "sent (snd (snd (for_loop env username lines v))) = sent v"
  by (induction lines) (simp_all add: except_Exception_def split: sum.splits)

lemma iterate_Created:
  assumes "length (case request_outcome env username kwargs w of Inl x \<Rightarrow> [] | Inr ls \<Rightarrow> ls) < n"
  shows "\<exists>w'. iterate n env (Created username kwargs) w =
      Some ((case request_outcome env username kwargs w of
               Inl x \<Rightarrow> [] | Inr ls \<Rightarrow> parsed_prefix (json_loads env) ls),
            propagated (case request_outcome env username kwargs w of
               Inl x \<Rightarrow> Some x | Inr ls \<Rightarrow> first_failure (json_loads env) ls),
            Finished, w') \<and>
      logged w' = logged w @ error_lines env username
         (case request_outcome env username kwargs w of
            Inl x \<Rightarrow> Some x | Inr ls \<Rightarrow> first_failure (json_loads env) ls)"
proof -
  from assms obtain m where n: "n = Suc m" by (cases n) auto
  let ?url = "lichess_url (cls w) @ ''games/user/'' @ username"
  let ?w2 = "w\<lparr>heap := (heap w)(headers (cls w) := accept_headers w),
               sent := sent w @ [(?url, accept_headers w)]\<rparr>"
  show ?thesis
  proof (cases "request_outcome env username kwargs w")
    case (Inl x)
    then have "gen_next env (Created username kwargs) w = except_Exception env username x ?w2"
      by (auto simp: gen_next_def start_body_def request_outcome_def accept_headers_def Let_def
          split: sum.splits option.splits)
    with Inl show ?thesis unfolding n
      by (cases "isinstance_Exception x")
         (simp_all add: except_Exception_def propagated_def error_lines_def logger_error_def)
  next
    case (Inr ls)
    then have g: "gen_next env (Created username kwargs) w = gen_next env (Suspended username ls) ?w2"
      by (auto simp: gen_next_def start_body_def request_outcome_def accept_headers_def Let_def
          split: sum.splits option.splits)
    have "iterate n env (Created username kwargs) w = iterate n env (Suspended username ls) ?w2"
      unfolding n using g by simp
    moreover from assms Inr have "length ls < n" by simp
    ultimately show ?thesis using Inr by (simp add: iterate_Suspended)
  qed
qed

lemma iterate_numeral:
  "iterate (numeral k) env g w =
     (case gen_next env g w of
        (Yield obj, g', w') \<Rightarrow>
          (case iterate (pred_numeral k) env g' w' of
             None \<Rightarrow> None
           | Some (objs, e, g'', w'') \<Rightarrow> Some (obj # objs, e, g'', w''))
      | (StopIteration, g', w') \<Rightarrow> Some ([], None, g', w')
      | (Propagates e, g', w') \<Rightarrow> Some ([], Some e, g', w'))"
  by (simp add: numeral_eq_Suc)

subsection \<open>Failures of an export\<close>

text \<open>
  Claim C8, as amended.  A caller that iterates the generator of \<^verbatim>\<open>export_by_player\<close> to
  its end always gets there.  A failure of the request, or of \<^verbatim>\<open>json.loads\<close> on a line,
  that is an \<^verbatim>\<open>Exception\<close> is captured: the helper logs one error line with the username
  and the text of the failure, and the generator ends without raising.  The caller has
  received the objects of the lines before the failure, and none at all when the request
  failed.  A failure that is not an \<^verbatim>\<open>Exception\<close> is raised to the caller and nothing is
  logged; without a failure nothing is logged either.
\<close>

theorem export_failure_captured:
  "(let out = request_outcome env username kwargs w;
        lines = (case out of Inl x \<Rightarrow> [] | Inr ls \<Rightarrow> ls);
        failed = (case out of Inl x \<Rightarrow> Some x | Inr ls \<Rightarrow> first_failure (json_loads env) ls);
        objs = (case out of Inl x \<Rightarrow> [] | Inr ls \<Rightarrow> parsed_prefix (json_loads env) ls)
    in length lines < n \<longrightarrow>
       (\<exists>w'. iterate n env (Created username kwargs) w = Some (objs, propagated failed, Finished, w') \<and>
             logged w' = logged w @ error_lines env username failed))"
  using iterate_Created[of env username kwargs w n] by (simp add: Let_def)

theorem export_failure_captured_witness:
  "request_outcome offline ''bob'' [] w0 = Inl ClientError \<and>
   propagated (Some ClientError) = None \<and>
   fst (the (iterate 1 offline (Created ''bob'' []) w0)) = [] \<and>
   fst (snd (the (iterate 1 offline (Created ''bob'' []) w0))) = None \<and>
   logged (snd (snd (snd (the (iterate 1 offline (Created ''bob'' []) w0)))))
     = [(''Lichess Export By Player API call failed. Username: bob. Error: error'', [])]"
proof -
  have o: "request_outcome offline ''bob'' [] w0 = Inl ClientError"
    by (simp add: request_outcome_def offline_def toy_env_def)
  have l: "logged w0 = []" by (simp add: w0_def world_init_def)
  have e: "error_lines offline ''bob'' (Some ClientError)
      = [(''Lichess Export By Player API call failed. Username: bob. Error: error'', [])]"
    by (simp add: error_lines_def offline_def toy_env_def)
  have p: "propagated (Some ClientError) = None" by (simp add: propagated_def)
  from export_failure_captured[of offline "''bob''" "[]" w0 1] o l e p
  obtain w' where "iterate 1 offline (Created ''bob'' []) w0 = Some ([], None, Finished, w')"
    "logged w' = [(''Lichess Export By Player API call failed. Username: bob. Error: error'', [])]"
    by (auto simp: Let_def)
  with o p show ?thesis by simp
qed

text \<open>
  The claim as stated fails twice.  A \<^verbatim>\<open>KeyboardInterrupt\<close> during the request is not an
  \<^verbatim>\<open>Exception\<close>: it is raised out of the helper and nothing is logged.  And a failure
  while the result is parsed comes after the objects of the earlier lines were yielded:
  on the body \<^verbatim>\<open>1\<close>, \<^verbatim>\<open>x\<close>, \<^verbatim>\<open>2\<close> the caller receives the object 1 and one logged error,
  not an empty result.
\<close>

theorem export_failure_counterexample:
  "fst (snd (the (iterate 1 interrupted (Created ''bob'' []) w0))) = Some KeyboardInterrupt \<and>
   logged (snd (snd (snd (the (iterate 1 interrupted (Created ''bob'' []) w0))))) = [] \<and>
   splitlines broken_ndjson = [[49], [120], [50]] \<and>
   fst (the (iterate 4 (streaming broken_ndjson) (Created ''bob'' []) w0)) = [1] \<and>
   fst (snd (the (iterate 4 (streaming broken_ndjson) (Created ''bob'' []) w0))) = None \<and>
   length (logged (snd (snd (snd (the (iterate 4 (streaming broken_ndjson) (Created ''bob'' []) w0)))))) = 1"
proof -
  have s: "splitlines broken_ndjson = [[49], [120], [50]]"
    by (simp add: splitlines_def broken_ndjson_def is_linebreak_def)
  have st: "strip [49] = [49]" "strip [120] = [120]" "strip [50] = [50]"
    by (simp_all add: strip_def isspace_def)
  have 1: "iterate 1 interrupted (Created ''bob'' []) w0
      = Some ([], Some KeyboardInterrupt, Finished,
          w0\<lparr>heap := (heap w0)(0 := accept_headers w0),
             sent := [(''https://lichess.org/api/games/user/bob'', accept_headers w0)]\<rparr>)"
    by (simp add: gen_next_def start_body_def Let_def interrupted_def toy_env_def
        except_Exception_def accept_headers_def w0_def world_init_def)
  have 2: "iterate 4 (streaming broken_ndjson) (Created ''bob'' []) w0
      = Some ([1], None, Finished,
          w0\<lparr>heap := (heap w0)(0 := accept_headers w0),
             sent := [(''https://lichess.org/api/games/user/bob'', accept_headers w0)],
             logged := [(''Lichess Export By Player API call failed. Username: bob. Error: error'', [])]\<rparr>)"
    by (simp add: iterate_numeral gen_next_def start_body_def Let_def streaming_def toy_env_def
        toy_loads_def except_Exception_def accept_headers_def w0_def world_init_def s st
        logger_error_def)
  from 1 2 s show ?thesis by (simp add: w0_def world_init_def)
qed

subsection \<open>The lines of a successful export\<close>

lemma parsed_prefix_takeWhile:
  "map Inr (parsed_prefix loads lines)
     = takeWhile (\<lambda>r. \<not> isl r) (map loads (filter (\<lambda>line. strip line \<noteq> []) lines))"
proof (induction lines)
  case Nil
  then show ?case by simp
next
  case (Cons line rest)
  then show ?case by (cases "loads line") auto
qed

lemma first_failure_None:
  "first_failure loads lines = None \<longleftrightarrow>
     list_all (\<lambda>r. \<not> isl r) (map loads (filter (\<lambda>line. strip line \<noteq> []) lines))"
proof (induction lines)
  case Nil
  then show ?case by simp
next
  case (Cons line rest)
  then show ?case by (cases "loads line") auto
qed

lemma takeWhile_shorter:
  "\<not> list_all P xs \<Longrightarrow> length (takeWhile P xs) < length xs"
  by (induction xs) auto

text \<open>
  Claim C10, as amended.  On a successful request, a caller that iterates the generator
  \<^verbatim>\<open>export_by_player\<close> returns to its end receives, in the order of the lines, the objects
  \<^verbatim>\<open>json.loads\<close> makes of the lines that are not only whitespace up to the first of them
  that \<^verbatim>\<open>json.loads\<close> rejects, and nothing for a line that is empty or only whitespace.
  When \<^verbatim>\<open>json.loads\<close> accepts all of them these are exactly one object for each such
  line; the generator ends without a failure and nothing is logged.  When it rejects one,
  the objects are fewer than the lines: the generator stops at that line, with the failure
  logged or raised, and the lines after it give nothing.
\<close>

theorem export_yields_one_object_per_line:
  "(let (g, w_called) = export_by_player kwargs username w;
        lines = splitlines (body resp);
        nonblank = filter (\<lambda>line. strip line \<noteq> []) lines;
        answers = map (json_loads env) nonblank
    in regulated_request env (lichess_url (cls w) @ ''games/user/'' @ username) (accept_headers w)
          (params kwargs) = Inr (Some resp) \<and>
       length lines < n \<longrightarrow>
         (\<exists>objs failed w'.
            iterate n env g w_called = Some (objs, failed, Finished, w') \<and>
            map Inr objs = takeWhile (\<lambda>r. \<not> isl r) answers \<and>
            failed = propagated (first_failure (json_loads env) lines) \<and>
            logged w' = logged w @ error_lines env username (first_failure (json_loads env) lines) \<and>
            (list_all (\<lambda>r. \<not> isl r) answers \<longrightarrow>
               map Inr objs = answers \<and> length objs = length nonblank \<and>
               failed = None \<and> logged w' = logged w) \<and>
            (\<not> list_all (\<lambda>r. \<not> isl r) answers \<longrightarrow> length objs < length nonblank)))"
proof -
  let ?lines = "splitlines (body resp)"
  let ?nonblank = "filter (\<lambda>line. strip line \<noteq> []) ?lines"
  let ?answers = "map (json_loads env) ?nonblank"
  {
    assume a: "regulated_request env (lichess_url (cls w) @ ''games/user/'' @ username)
        (accept_headers w) (params kwargs) = Inr (Some resp)"
      and n: "length ?lines < n"
    from a have o: "request_outcome env username kwargs w = Inr ?lines"
      by (simp add: request_outcome_def)
    with n have "length (case request_outcome env username kwargs w of Inl x \<Rightarrow> [] | Inr ls \<Rightarrow> ls) < n"
      by simp
    from iterate_Created[OF this] o obtain w' where
      i: "iterate n env (Created username kwargs) w =
            Some (parsed_prefix (json_loads env) ?lines,
                  propagated (first_failure (json_loads env) ?lines), Finished, w')"
      and l: "logged w' = logged w @ error_lines env username (first_failure (json_loads env) ?lines)"
      by auto
    have t: "map Inr (parsed_prefix (json_loads env) ?lines) = takeWhile (\<lambda>r. \<not> isl r) ?answers"
      by (rule parsed_prefix_takeWhile)
    have len: "length (parsed_prefix (json_loads env) ?lines) = length (takeWhile (\<lambda>r. \<not> isl r) ?answers)"
      using arg_cong[OF t, of length] by simp
    have all: "map Inr (parsed_prefix (json_loads env) ?lines) = ?answers \<and>
        length (parsed_prefix (json_loads env) ?lines) = length ?nonblank \<and>
        propagated (first_failure (json_loads env) ?lines) = None \<and> logged w' = logged w"
      if ok: "list_all (\<lambda>r. \<not> isl r) ?answers"
    proof -
      from ok have f: "first_failure (json_loads env) ?lines = None"
        by (simp add: first_failure_None)
      from ok have tw: "takeWhile (\<lambda>r. \<not> isl r) ?answers = ?answers"
        by (simp add: list_all_iff)
      from t tw have m: "map Inr (parsed_prefix (json_loads env) ?lines) = ?answers" by simp
      from len tw have "length (parsed_prefix (json_loads env) ?lines) = length ?nonblank" by simp
      with m f l show ?thesis by (simp add: propagated_def error_lines_def)
    qed
    have fewer: "length (parsed_prefix (json_loads env) ?lines) < length ?nonblank"
      if bad: "\<not> list_all (\<lambda>r. \<not> isl r) ?answers"
      using takeWhile_shorter[OF bad] len by simp
    from i l t all fewer
    have "\<exists>objs failed w'.
            iterate n env (Created username kwargs) w = Some (objs, failed, Finished, w') \<and>
            map Inr objs = takeWhile (\<lambda>r. \<not> isl r) ?answers \<and>
            failed = propagated (first_failure (json_loads env) ?lines) \<and>
            logged w' = logged w @ error_lines env username (first_failure (json_loads env) ?lines) \<and>
            (list_all (\<lambda>r. \<not> isl r) ?answers \<longrightarrow>
               map Inr objs = ?answers \<and> length objs = length ?nonblank \<and>
               failed = None \<and> logged w' = logged w) \<and>
            (\<not> list_all (\<lambda>r. \<not> isl r) ?answers \<longrightarrow> length objs < length ?nonblank)"
      by blast
  }
  then show ?thesis by (simp add: export_by_player_def Let_def)
qed

theorem export_yields_one_object_per_line_witness:
  "regulated_request (streaming ndjson) (lichess_url (cls w0) @ ''games/user/'' @ ''bob'')
      (accept_headers w0) (params [])
     = Inr (Some \<lparr>status = 200, json = Inl JSONDecodeError, body = ndjson\<rparr>) \<and>
   splitlines ndjson = [[49], [32, 9], [], [50]] \<and>
   filter (\<lambda>line. strip line \<noteq> []) (splitlines ndjson) = [[49], [50]] \<and>
   map toy_loads (filter (\<lambda>line. strip line \<noteq> []) (splitlines ndjson)) = [Inr 1, Inr 2] \<and>
   fst (the (iterate 5 (streaming ndjson) (fst (export_by_player [] ''bob'' w0))
               (snd (export_by_player [] ''bob'' w0)))) = [1, 2] \<and>
   fst (snd (the (iterate 5 (streaming ndjson) (fst (export_by_player [] ''bob'' w0))
               (snd (export_by_player [] ''bob'' w0))))) = None \<and>
   logged (snd (snd (snd (the (iterate 5 (streaming ndjson) (fst (export_by_player [] ''bob'' w0))
               (snd (export_by_player [] ''bob'' w0))))))) = []"
proof -
  have s: "splitlines ndjson = [[49], [32, 9], [], [50]]"
    by (simp add: splitlines_def ndjson_def is_linebreak_def)
  have st: "strip [49] = [49]" "strip [32, 9] = []" "strip [] = []" "strip [50] = [50]"
    by (simp_all add: strip_def isspace_def)
  have l: "toy_loads [49] = Inr 1" "toy_loads [50] = Inr 2"
    by (simp_all add: toy_loads_def st)
  have r: "regulated_request (streaming ndjson) (lichess_url (cls w0) @ ''games/user/'' @ ''bob'')
      (accept_headers w0) (params []) = Inr (Some \<lparr>status = 200, json = Inl JSONDecodeError, body = ndjson\<rparr>)"
    by (simp add: streaming_def toy_env_def)
  have j: "json_loads (streaming ndjson) = toy_loads"
    by (simp add: streaming_def toy_env_def)
  have f: "filter (\<lambda>line. strip line \<noteq> []) (splitlines ndjson) = [[49], [50]]"
    by (simp add: s st)
  have a: "map toy_loads (filter (\<lambda>line. strip line \<noteq> []) (splitlines ndjson)) = [Inr 1, Inr 2]"
    by (simp add: f l)
  have lg: "logged w0 = []" by (simp add: w0_def world_init_def)
  have e: "export_by_player [] ''bob'' w0 = (Created ''bob'' [], w0)"
    by (simp add: export_by_player_def)
  from export_yields_one_object_per_line[of "[]" "''bob''" w0 "\<lparr>status = 200, json = Inl JSONDecodeError, body = ndjson\<rparr>"
      "streaming ndjson" 5] r
  obtain objs failed w' where i: "iterate 5 (streaming ndjson) (Created ''bob'' []) w0 = Some (objs, failed, Finished, w')"
    and m: "list_all (\<lambda>r. \<not> isl r) (map toy_loads (filter (\<lambda>line. strip line \<noteq> []) (splitlines ndjson))) \<longrightarrow>
        map Inr objs = map toy_loads (filter (\<lambda>line. strip line \<noteq> []) (splitlines ndjson)) \<and>
        failed = None \<and> logged w' = logged w0"
    unfolding e Let_def j by (auto simp: s)
  from m a have "map Inr objs = [Inr 1, Inr 2 :: failure + int]" and fl: "failed = None"
    and lw: "logged w' = logged w0"
    by simp_all
  then have "objs = [1, 2]" by (auto simp: map_eq_Cons_conv)
  with i fl lw lg r s f a e show ?thesis by simp
qed

text \<open>
  The claim as stated, exactly one object per line that is not only whitespace on every
  successful request, fails when \<^verbatim>\<open>json.loads\<close> rejects a line: the request succeeds with
  a body of four such lines, \<^verbatim>\<open>1\<close>, \<^verbatim>\<open>2\<close>, \<^verbatim>\<open>{\<close> and \<^verbatim>\<open>1\<close>; the third is not JSON, the
  handler ends the generator there, and the caller has received two objects for four lines.
\<close>

theorem export_malformed_line_counterexample:
  "regulated_request (streaming malformed_ndjson) (lichess_url (cls w0) @ ''games/user/'' @ ''bob'')
      (accept_headers w0) (params [])
     = Inr (Some \<lparr>status = 200, json = Inl JSONDecodeError, body = malformed_ndjson\<rparr>) \<and>
   filter (\<lambda>line. strip line \<noteq> []) (splitlines malformed_ndjson) = [[49], [50], [123], [49]] \<and>
   fst (the (iterate 5 (streaming malformed_ndjson) (fst (export_by_player [] ''bob'' w0))
               (snd (export_by_player [] ''bob'' w0)))) = [1, 2] \<and>
   fst (snd (the (iterate 5 (streaming malformed_ndjson) (fst (export_by_player [] ''bob'' w0))
               (snd (export_by_player [] ''bob'' w0))))) = None"
proof -
  have s: "splitlines malformed_ndjson = [[49], [50], [123], [49]]"
    by (simp add: splitlines_def malformed_ndjson_def is_linebreak_def)
  have st: "strip [49] = [49]" "strip [50] = [50]" "strip [123] = [123]"
    by (simp_all add: strip_def isspace_def)
  have r: "regulated_request (streaming malformed_ndjson) (lichess_url (cls w0) @ ''games/user/'' @ ''bob'')
      (accept_headers w0) (params [])
     = Inr (Some \<lparr>status = 200, json = Inl JSONDecodeError, body = malformed_ndjson\<rparr>)"
    by (simp add: streaming_def toy_env_def)
  have f: "filter (\<lambda>line. strip line \<noteq> []) (splitlines malformed_ndjson) = [[49], [50], [123], [49]]"
    by (simp add: s st)
  have e: "export_by_player [] ''bob'' w0 = (Created ''bob'' [], w0)"
    by (simp add: export_by_player_def)
  have i: "iterate 5 (streaming malformed_ndjson) (Created ''bob'' []) w0
      = Some ([1, 2], None, Finished,
          w0\<lparr>heap := (heap w0)(0 := accept_headers w0),
             sent := [(''https://lichess.org/api/games/user/bob'', accept_headers w0)],
             logged := [(''Lichess Export By Player API call failed. Username: bob. Error: error'', [])]\<rparr>)"
    by (simp add: iterate_numeral gen_next_def start_body_def Let_def streaming_def toy_env_def
        toy_loads_def except_Exception_def accept_headers_def w0_def world_init_def s st
        logger_error_def)
  from r f i show ?thesis unfolding e by simp
qed

subsection \<open>The shared headers\<close>

lemma accept_headers_idem:
  assumes "accept_set w"
  shows "accept_headers w = heap w (headers (cls w))"
    and "(heap w)(headers (cls w) := accept_headers w) = heap w"
proof -
  from assms show a: "accept_headers w = heap w (headers (cls w))"
    by (auto simp: accept_set_def accept_headers_def)
  show "(heap w)(headers (cls w) := accept_headers w) = heap w"
    unfolding a by simp
qed

lemma gen_next_frame:
  "cls (snd (snd (gen_next env g w))) = cls w"
  "heap (snd (snd (gen_next env g w))) =
     (case g of Created username kwargs \<Rightarrow> (heap w)(headers (cls w) := accept_headers w) | _ \<Rightarrow> heap w)"
  "sent (snd (snd (gen_next env g w))) =
     (case g of
        Created username kwargs \<Rightarrow>
          sent w @ [(lichess_url (cls w) @ ''games/user/'' @ username, accept_headers w)]
      | _ \<Rightarrow> sent w)"
  by (cases g; simp add: gen_next_def start_body_frame for_loop_frame)+

lemma get_user_performance_frame:
  "cls (snd (get_user_performance env username perf_type w)) = cls w"
  "heap (snd (get_user_performance env username perf_type w)) = heap w"
  "sent (snd (get_user_performance env username perf_type w)) =
     sent w @ [(lichess_url (cls w) @ ''user/'' @ username @ ''/perf/'' @ perf_type,
                heap w (headers (cls w)))]"
  by (simp_all add: get_user_performance_def request_def respond_def split: sum.splits)

lemma li_step_frame:
  assumes "accept_set w"
  shows "cls (li_step env op w) = cls w \<and> heap (li_step env op w) = heap w \<and>
         (\<exists>new. sent (li_step env op w) = sent w @ new \<and> list_all carries_accept new)"
proof (cases op)
  case (Perf username perf_type)
  from assms show ?thesis unfolding Perf
    by (simp add: get_user_performance_frame carries_accept_def accept_set_def)
next
  case (Export kwargs username)
  show ?thesis unfolding Export by (simp add: export_by_player_def)
next
  case (Next g)
  from assms have c: "carries_accept (url, accept_headers w)" for url
    by (simp add: carries_accept_def accept_headers_def)
  from accept_headers_idem[OF assms] c show ?thesis unfolding Next
    by (cases g) (simp_all add: gen_next_frame)
qed

lemma li_run_frame:
  assumes "accept_set w"
  shows "cls (li_run env ops w) = cls w \<and> heap (li_run env ops w) = heap w \<and>
         (\<exists>new. sent (li_run env ops w) = sent w @ new \<and> list_all carries_accept new)"
  using assms
proof (induction ops arbitrary: w)
  case Nil
  then show ?case by (simp add: li_run_def)
next
  case (Cons op ops)
  from li_step_frame[OF Cons.prems, of env op]
  obtain new where s: "cls (li_step env op w) = cls w" "heap (li_step env op w) = heap w"
    "sent (li_step env op w) = sent w @ new" "list_all carries_accept new"
    by blast
  with Cons.prems have "accept_set (li_step env op w)" by (simp add: accept_set_def)
  from Cons.IH[OF this] obtain new' where
    "cls (li_run env ops (li_step env op w)) = cls (li_step env op w)"
    "heap (li_run env ops (li_step env op w)) = heap (li_step env op w)"
    "sent (li_run env ops (li_step env op w)) = sent (li_step env op w) @ new'"
    "list_all carries_accept new'"
    by blast
  with s have "cls (li_run env (op # ops) w) = cls w \<and> heap (li_run env (op # ops) w) = heap w \<and>
      sent (li_run env (op # ops) w) = sent w @ (new @ new') \<and> list_all carries_accept (new @ new')"
    by (simp add: li_run_def)
  then show ?case by blast
qed

text \<open>
  Claim C9, as amended.  Calling \<^verbatim>\<open>export_by_player\<close> only makes the generator: nothing
  is changed.  It is the first \<^verbatim>\<open>next\<close> on that generator that runs the start of the
  body: it takes the dictionary object the class attribute \<^verbatim>\<open>LichessApiCall.headers\<close>
  refers to, not a copy, and inserts the key \<^verbatim>\<open>Accept\<close> with the value
  \<^verbatim>\<open>application/x-ndjson\<close> into it; the other keys of that dictionary, the other objects
  and the class attributes are unchanged.  From then on, whatever is called on the Lichess
  side, the dictionary stays as it is, and every request made with it, the one of the
  export and those of \<^verbatim>\<open>get_user_performance\<close> among them, carries that header.
\<close>

theorem export_mutates_shared_headers:
  "(let (g, w_called) = export_by_player kwargs username w;
        w1 = snd (snd (gen_next env g w_called));
        w2 = li_run env ops w1
    in g = Created username kwargs \<and> w_called = w \<and>
       cls w1 = cls w \<and>
       heap w1 = (heap w)(headers (cls w) :=
                    (heap w (headers (cls w)))(''Accept'' \<mapsto> ''application/x-ndjson'')) \<and>
       cls w2 = cls w \<and> heap w2 = heap w1 \<and>
       list_all carries_accept (drop (length (sent w)) (sent w2)) \<and>
       carries_accept (last (sent (snd (get_user_performance env username' perf_type w2)))))"
proof -
  define w1 where "w1 = snd (snd (gen_next env (Created username kwargs) w))"
  define w2 where "w2 = li_run env ops w1"
  have c1: "cls w1 = cls w"
    and h1: "heap w1 = (heap w)(headers (cls w) := accept_headers w)"
    and s1: "sent w1 = sent w @ [(lichess_url (cls w) @ ''games/user/'' @ username, accept_headers w)]"
    unfolding w1_def by (simp_all add: gen_next_frame)
  from c1 h1 have a1: "accept_set w1"
    by (simp add: accept_set_def accept_headers_def)
  from li_run_frame[OF a1, of env ops] obtain new where
    c2: "cls w2 = cls w1" and h2: "heap w2 = heap w1"
    and s2: "sent w2 = sent w1 @ new" and n: "list_all carries_accept new"
    unfolding w2_def by blast
  from c2 h2 a1 have a2: "accept_set w2" by (simp add: accept_set_def)
  have "carries_accept (lichess_url (cls w) @ ''games/user/'' @ username, accept_headers w)"
    by (simp add: carries_accept_def accept_headers_def)
  with s1 s2 n have d: "list_all carries_accept (drop (length (sent w)) (sent w2))" by simp
  from a2 have l: "carries_accept (last (sent (snd (get_user_performance env username' perf_type w2))))"
    by (simp add: get_user_performance_frame carries_accept_def accept_set_def)
  from c1 h1 c2 h2 d l show ?thesis
    unfolding export_by_player_def Let_def w1_def[symmetric] w2_def[symmetric]
    by (simp add: accept_headers_def w1_def[symmetric] w2_def[symmetric])
qed

theorem export_mutates_shared_headers_witness:
  "export_by_player [] ''bob'' w0 = (Created ''bob'' [], w0) \<and>
   heap w0 0 = [''Authorization'' \<mapsto> ''Bearer li-token''] \<and>
   heap (snd (snd (gen_next (streaming ndjson) (Created ''bob'' []) w0))) 0
     = [''Authorization'' \<mapsto> ''Bearer li-token'', ''Accept'' \<mapsto> ''application/x-ndjson''] \<and>
   sent (li_run (streaming ndjson) [Perf ''bob'' ''blitz'']
          (snd (snd (gen_next (streaming ndjson) (Created ''bob'' []) w0))))
     = [(''https://lichess.org/api/games/user/bob'',
           [''Authorization'' \<mapsto> ''Bearer li-token'', ''Accept'' \<mapsto> ''application/x-ndjson'']),
        (''https://lichess.org/api/user/bob/perf/blitz'',
           [''Authorization'' \<mapsto> ''Bearer li-token'', ''Accept'' \<mapsto> ''application/x-ndjson''])] \<and>
   list_all carries_accept
     (sent (li_run (streaming ndjson) [Perf ''bob'' ''blitz'']
          (snd (snd (gen_next (streaming ndjson) (Created ''bob'' []) w0)))))"
proof -
  have e: "export_by_player [] ''bob'' w0 = (Created ''bob'' [], w0)"
    by (simp add: export_by_player_def)
  have h0: "heap w0 0 = [''Authorization'' \<mapsto> ''Bearer li-token'']" "headers (cls w0) = 0"
    "sent w0 = []" "lichess_url (cls w0) = ''https://lichess.org/api/''"
    by (simp_all add: w0_def world_init_def str_getenv_def)
  have s: "sent (li_run (streaming ndjson) [Perf ''bob'' ''blitz'']
          (snd (snd (gen_next (streaming ndjson) (Created ''bob'' []) w0))))
     = [(''https://lichess.org/api/games/user/bob'',
           [''Authorization'' \<mapsto> ''Bearer li-token'', ''Accept'' \<mapsto> ''application/x-ndjson'']),
        (''https://lichess.org/api/user/bob/perf/blitz'',
           [''Authorization'' \<mapsto> ''Bearer li-token'', ''Accept'' \<mapsto> ''application/x-ndjson''])]"
    by (simp add: li_run_def get_user_performance_frame gen_next_frame accept_headers_def h0)
  from export_mutates_shared_headers[of "[]" "''bob''" w0 "streaming ndjson" "[Perf ''bob'' ''blitz'']"] e h0 s
  show ?thesis by (simp add: Let_def)
qed

text \<open>
  The claim as stated, that calling \<^verbatim>\<open>export_by_player\<close> mutates the shared headers,
  fails for a call whose generator is not iterated: the state after the call is the state
  before it, the dictionary has no \<^verbatim>\<open>Accept\<close> key, and the request of a
  \<^verbatim>\<open>get_user_performance\<close> that follows goes out without that header.
\<close>

theorem export_call_alone_counterexample:
  "snd (export_by_player [] ''bob'' w0) = w0 \<and>
   heap (snd (export_by_player [] ''bob'' w0)) (headers (cls w0)) ''Accept'' = None \<and>
   sent (snd (get_user_performance found ''bob'' ''blitz'' (snd (export_by_player [] ''bob'' w0))))
     = [(''https://lichess.org/api/user/bob/perf/blitz'', [''Authorization'' \<mapsto> ''Bearer li-token''])] \<and>
   \<not> carries_accept
       (last (sent (snd (get_user_performance found ''bob'' ''blitz'' (snd (export_by_player [] ''bob'' w0))))))"
  by (simp add: export_by_player_def get_user_performance_frame carries_accept_def w0_def
      world_init_def str_getenv_def)

end
